theory Spec2Isabelle
  imports Main "HOL-Library.AList"
begin

section \<open>Python strings\<close>

text \<open>
  A Python \<open>str\<close> is modelled as a \<^typ>\<open>string\<close>; a \<^typ>\<open>char\<close> stands for the code
  point of the same number (U+0000 to U+00FF). The character classes below are CPython's
  tables restricted to that range.
\<close>

definition isspace :: "char \<Rightarrow> bool" where
  \<comment> \<open>\<open>str.isspace\<close>, which is also what \<open>str.strip\<close> and the regex class \<open>\s\<close> test\<close>
  "isspace c = (let n = (of_char c :: nat) in
     (9 \<le> n \<and> n \<le> 13) \<or> (28 \<le> n \<and> n \<le> 32) \<or> n = 133 \<or> n = 160)"

definition islinebreak :: "char \<Rightarrow> bool" where
  \<comment> \<open>the line boundaries of \<open>str.splitlines\<close>\<close>
  "islinebreak c = (let n = (of_char c :: nat) in
     (10 \<le> n \<and> n \<le> 13) \<or> (28 \<le> n \<and> n \<le> 30) \<or> n = 133)"

definition lstrip :: "string \<Rightarrow> string" where
  "lstrip s = dropWhile isspace s"

definition rstrip :: "string \<Rightarrow> string" where
  "rstrip s = rev (dropWhile isspace (rev s))"

definition strip :: "string \<Rightarrow> string" where
  "strip s = rstrip (lstrip s)"

fun splitlines_from :: "string \<Rightarrow> string \<Rightarrow> string list" where
  \<comment> \<open>\<open>splitlines_from cur s\<close>: the lines of \<open>s\<close>, \<open>cur\<close> being the part of the current line
      already read; a line boundary at the very end opens no further line, and
      \<open>\r\n\<close> is one boundary\<close>
  "splitlines_from cur [] = (if cur = [] then [] else [cur])"
| "splitlines_from cur (c # cs) =
     (if islinebreak c then
        (case cs of
           [] \<Rightarrow> cur # splitlines_from [] cs
         | d # ds \<Rightarrow>
             if c = CHR 0x0D \<and> d = CHR 0x0A then cur # splitlines_from [] ds
             else cur # splitlines_from [] cs)
      else splitlines_from (cur @ [c]) cs)"

definition splitlines :: "string \<Rightarrow> string list" where
  "splitlines s = splitlines_from [] s"

function sub_ws :: "string \<Rightarrow> string" where
  \<comment> \<open>\<open>re.sub(r"\s+", " ", s)\<close>: every maximal run of whitespace becomes one space\<close>
  "sub_ws [] = []"
| "sub_ws (c # cs) =
     (if isspace c then CHR '' '' # sub_ws (dropWhile isspace cs) else c # sub_ws cs)"
  by pat_completeness auto
termination
  by (relation "measure length") (auto simp: length_dropWhile_le less_Suc_eq_le)

definition slice_to :: "int \<Rightarrow> string \<Rightarrow> string" where
  \<comment> \<open>\<open>s[:n]\<close>; a negative \<open>n\<close> counts from the end\<close>
  "slice_to n s =
     (if 0 \<le> n then take (nat n) s else take (nat (int (length s) + n)) s)"

definition startswith_gt :: "string \<Rightarrow> bool" where
  \<comment> \<open>\<open>s.startswith(">")\<close>\<close>
  "startswith_gt s = (case s of [] \<Rightarrow> False | c # _ \<Rightarrow> c = CHR ''>'')"

definition replace_nl :: "string \<Rightarrow> string" where
  \<comment> \<open>\<open>s.replace("\n", " ")\<close>\<close>
  "replace_nl s = map (\<lambda>c. if c = CHR 0x0A then CHR '' '' else c) s"

section \<open>Summaries\<close>

fun first_summary_line :: "int \<Rightarrow> string list \<Rightarrow> string option" where
  \<comment> \<open>the \<open>for\<close> loop of \<open>heuristic_summary\<close>: \<open>Some\<close> is its \<open>return\<close>\<close>
  "first_summary_line max_len [] = None"
| "first_summary_line max_len (line # lines) =
     (let s = strip line in
      if s \<noteq> [] \<and> \<not> startswith_gt s
      then Some (rstrip (slice_to max_len (sub_ws s)))
      else first_summary_line max_len lines)"

definition heuristic_summary :: "string \<Rightarrow> int \<Rightarrow> string" where
  "heuristic_summary text max_len =
     (case first_summary_line max_len (splitlines text) of
        Some s \<Rightarrow> s
      | None \<Rightarrow> rstrip (slice_to max_len (replace_nl (strip text))))"


section \<open>Decimal integers\<close>

datatype py_error = ValueError | OverflowError | UnicodeDecodeError | IMAPError

definition isdigit :: "char \<Rightarrow> bool" where
  "isdigit c = (let n = (of_char c :: nat) in 48 \<le> n \<and> n \<le> 57)"

definition digit_val :: "char \<Rightarrow> nat" where
  "digit_val c = of_char c - 48"

fun parse_digits :: "nat \<Rightarrow> string \<Rightarrow> nat option" where
  \<comment> \<open>the rest of a decimal literal after a digit: digits, each optionally preceded by
      a single underscore\<close>
  "parse_digits acc [] = Some acc"
| "parse_digits acc (c # cs) =
     (if isdigit c then parse_digits (10 * acc + digit_val c) cs
      else if c = CHR ''_'' then
        (case cs of
           [] \<Rightarrow> None
         | d # ds \<Rightarrow> if isdigit d then parse_digits (10 * acc + digit_val d) ds else None)
      else None)"

definition dec :: "nat \<Rightarrow> string \<Rightarrow> nat" where
  \<comment> \<open>the number that \<open>parse_digits\<close> reaches on a string of digits\<close>
  "dec acc s = foldl (\<lambda>a c. 10 * a + digit_val c) acc s"

definition parse_nat :: "string \<Rightarrow> nat option" where
  "parse_nat s =
     (case s of [] \<Rightarrow> None
      | c # cs \<Rightarrow> if isdigit c then parse_digits (digit_val c) cs else None)"

definition py_int :: "string \<Rightarrow> int option" where
  \<comment> \<open>\<open>int(s)\<close> for a \<open>str\<close>; \<open>None\<close> is \<open>ValueError\<close>. The bound that recent
      interpreters put on the number of digits is left out.\<close>
  "py_int s =
     (case strip s of
        [] \<Rightarrow> None
      | c # cs \<Rightarrow>
          if c = CHR ''-'' then map_option (\<lambda>n. - int n) (parse_nat cs)
          else if c = CHR ''+'' then map_option int (parse_nat cs)
          else map_option int (parse_nat (c # cs)))"

definition digit_char :: "nat \<Rightarrow> char" where
  "digit_char n = char_of (48 + n)"

function str_nat :: "nat \<Rightarrow> string" where
  "str_nat n = (if n < 10 then [digit_char n] else str_nat (n div 10) @ [digit_char (n mod 10)])"
  by pat_completeness auto
termination
  by (relation "measure id") auto

declare str_nat.simps [simp del]

definition py_str :: "int \<Rightarrow> string" where
  \<comment> \<open>\<open>str(i)\<close> for an \<open>int\<close>\<close>
  "py_str i = (if i < 0 then CHR ''-'' # str_nat (nat (- i)) else str_nat (nat i))"

section \<open>Persistence\<close>

text \<open>
  The SQLite file is the value of type \<open>db\<close>: the three tables of \<open>ensure_db\<close> (the \<open>metadata\<close>
  table as its rows, a key with its value), and the
  counter that \<open>AUTOINCREMENT\<close> keeps for \<open>tasks.id\<close>. Every statement of the source runs in
  a connection of its own and is committed at once; the model takes each of them to succeed.
  An instant is a number of microseconds since \<open>datetime.min\<close>.
\<close>

datatype iso_text =
    Iso int
    \<comment> \<open>the text \<open>isoformat()\<close> writes for this naive instant\<close>
  | NotIso string
    \<comment> \<open>any other text: empty, or one on which \<open>fromisoformat\<close> or the comparison with the
        naive cutoff raises\<close>

record task =
  tid :: nat
  email_uid :: "string option"
  subject :: string
  snippet :: string
  task_text :: string
  created_at :: int
  completed_at :: "iso_text option"
  is_completed :: int
  archived_at :: "int option"

record db =
  tasks :: "task list"
  seq :: nat
  metadata :: "(string \<times> string) list"
  processed_uids :: "string set"

definition ensure_db :: db where
  \<comment> \<open>the store \<open>ensure_db\<close> creates when no file exists\<close>
  "ensure_db = \<lparr>tasks = [], seq = 0, metadata = [], processed_uids = {}\<rparr>"

definition save_metadata :: "string \<Rightarrow> string \<Rightarrow> db \<Rightarrow> db" where
  \<comment> \<open>\<open>INSERT ... ON CONFLICT(key) DO UPDATE SET value=excluded.value\<close>\<close>
  "save_metadata key val d = d\<lparr>metadata := AList.update key val (metadata d)\<rparr>"

definition get_metadata :: "string \<Rightarrow> string \<Rightarrow> db \<Rightarrow> string" where
  "get_metadata key dflt d = (case map_of (metadata d) key of Some v \<Rightarrow> v | None \<Rightarrow> dflt)"

definition is_uid_processed :: "string \<Rightarrow> db \<Rightarrow> bool" where
  "is_uid_processed uid d = (uid \<in> processed_uids d)"

definition mark_uid_processed :: "string \<Rightarrow> db \<Rightarrow> db" where
  "mark_uid_processed uid d = d\<lparr>processed_uids := insert uid (processed_uids d)\<rparr>"

definition insert_task :: "int \<Rightarrow> string \<Rightarrow> string \<Rightarrow> string \<Rightarrow> string option \<Rightarrow> db \<Rightarrow> db" where
  \<comment> \<open>the \<open>INSERT INTO tasks\<close> of \<open>add_task\<close>; the other columns take their defaults\<close>
  "insert_task now text subj snip uid d =
     d\<lparr>tasks := tasks d @
          [\<lparr>tid = Suc (seq d), email_uid = uid, subject = subj, snippet = snip,
            task_text = text, created_at = now, completed_at = None, is_completed = 0,
            archived_at = None\<rparr>],
       seq := Suc (seq d)\<rparr>"

definition add_task :: "int \<Rightarrow> string \<Rightarrow> string \<Rightarrow> string \<Rightarrow> string option \<Rightarrow> db \<Rightarrow> bool \<times> db" where
  \<comment> \<open>\<open>if email_uid\<close> holds for a uid that is neither \<open>None\<close> nor empty\<close>
  "add_task now text subj snip uid d =
     (if (case uid of None \<Rightarrow> False | Some u \<Rightarrow> u \<noteq> [] \<and> is_uid_processed u d) then (False, d)
      else
        let d1 = insert_task now text subj snip uid d;
            d2 = (case uid of None \<Rightarrow> d1
                  | Some u \<Rightarrow> if u \<noteq> [] then mark_uid_processed u d1 else d1)
        in (True, d2))"

type_synonym row = "nat \<times> string \<times> int \<times> iso_text option \<times> string"

definition row_of :: "task \<Rightarrow> row" where
  "row_of t = (tid t, task_text t, is_completed t, completed_at t, subject t)"

definition select_active :: "db \<Rightarrow> row list" where
  \<comment> \<open>\<open>SELECT id, task_text, is_completed, completed_at, subject FROM tasks
      WHERE archived_at IS NULL ORDER BY is_completed, id DESC\<close>\<close>
  "select_active d =
     map row_of
       (sort_key is_completed (rev (sort_key tid [t \<leftarrow> tasks d. archived_at t = None])))"

definition datetime_max :: int where
  \<comment> \<open>\<open>datetime.max\<close>, 9999-12-31T23:59:59.999999\<close>
  "datetime_max = 315537897599999999"

definition cutoff_of :: "int \<Rightarrow> int \<Rightarrow> int option" where
  \<comment> \<open>\<open>datetime.utcnow() - timedelta(hours=retention_hours)\<close>; \<open>None\<close> is the
      \<open>OverflowError\<close> of a result outside \<open>datetime.min .. datetime.max\<close> (a \<open>timedelta\<close>
      too large to build gives such a result as well)\<close>
  "cutoff_of now retention_hours =
     (let c = now - retention_hours * 3600000000
      in if c < 0 \<or> datetime_max < c then None else Some c)"

definition expired :: "int \<Rightarrow> row \<Rightarrow> bool" where
  \<comment> \<open>the test of the archival loop on one row: \<open>done and comp_at\<close> and
      \<open>fromisoformat(comp_at) < cutoff\<close>, an exception counting as no\<close>
  "expired cutoff r =
     (case r of (_, _, done, comp_at, _) \<Rightarrow>
        done \<noteq> 0 \<and> (case comp_at of Some (Iso c) \<Rightarrow> c < cutoff | _ \<Rightarrow> False))"

definition archive_ids :: "int \<Rightarrow> nat list \<Rightarrow> db \<Rightarrow> db" where
  \<comment> \<open>\<open>UPDATE tasks SET archived_at=? WHERE id IN (...)\<close>\<close>
  "archive_ids now ids d =
     d\<lparr>tasks := map (\<lambda>t. if tid t \<in> set ids then t\<lparr>archived_at := Some now\<rparr> else t) (tasks d)\<rparr>"

definition count_active :: "int \<Rightarrow> db \<Rightarrow> nat" where
  \<comment> \<open>\<open>SELECT COUNT(*) FROM tasks WHERE archived_at IS NULL AND is_completed=?\<close>\<close>
  "count_active flag d = length [t \<leftarrow> tasks d. archived_at t = None \<and> is_completed t = flag]"

definition list_active_tasks ::
  "int \<Rightarrow> int \<Rightarrow> int \<Rightarrow> db \<Rightarrow> py_error + ((row list \<times> nat \<times> nat) \<times> db)" where
  \<comment> \<open>with \<open>return_counts=True\<close>; \<open>now\<close> is the clock when the cutoff is taken, \<open>now2\<close> the
      clock when the archival is stamped\<close>
  "list_active_tasks now now2 retention_hours d =
     (case cutoff_of now retention_hours of
        None \<Rightarrow> Inl OverflowError
      | Some cutoff \<Rightarrow>
          let rows = select_active d;
              to_archive = map fst (filter (expired cutoff) rows);
              d' = (if to_archive \<noteq> [] then archive_ids now2 to_archive d else d);
              rows' = (if to_archive \<noteq> [] then select_active d' else rows)
          in Inr ((rows', count_active 0 d', count_active 1 d'), d'))"

definition mark_task_completed :: "int \<Rightarrow> nat \<Rightarrow> bool \<Rightarrow> db \<Rightarrow> db" where
  "mark_task_completed now task_id done d =
     d\<lparr>tasks := map (\<lambda>t. if tid t = task_id
                          then (if done then t\<lparr>is_completed := 1, completed_at := Some (Iso now)\<rparr>
                                else t\<lparr>is_completed := 0, completed_at := None\<rparr>)
                          else t) (tasks d)\<rparr>"

definition delete_task :: "nat \<Rightarrow> db \<Rightarrow> db" where
  "delete_task task_id d = d\<lparr>tasks := [t \<leftarrow> tasks d. tid t \<noteq> task_id]\<rparr>"

definition archive_all_completed_now :: "int \<Rightarrow> db \<Rightarrow> nat \<times> db" where
  "archive_all_completed_now now d =
     (length [t \<leftarrow> tasks d. archived_at t = None \<and> is_completed t = 1],
      d\<lparr>tasks := map (\<lambda>t. if archived_at t = None \<and> is_completed t = 1
                           then t\<lparr>archived_at := Some now\<rparr> else t) (tasks d)\<rparr>)"


section \<open>Configuration\<close>

text \<open>
  A \<open>config\<close> holds the options of \<open>config.ini\<close> that the poller reads; \<open>None\<close> is an option
  (or its section) that is absent, for which \<open>cfg.get\<close> returns its fallback.
\<close>

record config =
  imap_username :: "string option"
  imap_password :: "string option"
  imap_ssl :: "string option"
  imap_cutoff_date :: "string option"
  imap_mark_as_read :: "string option"
  ai_enabled :: "string option"
  ai_model :: "string option"
  ai_temperature :: "string option"
  ai_api_key :: "string option"
  ai_base_url :: "string option"
  ai_classify_before_add :: "string option"
  ai_drop_labels :: "string option"

definition cfg_get :: "string option \<Rightarrow> string \<Rightarrow> string" where
  "cfg_get v fallback = (case v of None \<Rightarrow> fallback | Some s \<Rightarrow> s)"

definition lower_char :: "char \<Rightarrow> char" where
  "lower_char c = (let n = (of_char c :: nat) in
     if (65 \<le> n \<and> n \<le> 90) \<or> (192 \<le> n \<and> n \<le> 222 \<and> n \<noteq> 215) then char_of (n + 32) else c)"

definition lower :: "string \<Rightarrow> string" where
  "lower s = map lower_char s"

definition getboolean :: "string option \<Rightarrow> bool \<Rightarrow> py_error + bool" where
  \<comment> \<open>\<open>ConfigParser.getboolean\<close> with a fallback\<close>
  "getboolean v fallback =
     (case v of
        None \<Rightarrow> Inr fallback
      | Some s \<Rightarrow>
          if lower s \<in> set [''1'', ''yes'', ''true'', ''on''] then Inr True
          else if lower s \<in> set [''0'', ''no'', ''false'', ''off''] then Inr False
          else Inl ValueError)"

definition get_bool :: "string option \<Rightarrow> bool \<Rightarrow> bool" where
  "get_bool v fallback =
     (let raw = cfg_get v (if fallback then ''True'' else ''False'');
          raw = lower (strip (takeWhile (\<lambda>c. c \<noteq> CHR ''#'') (takeWhile (\<lambda>c. c \<noteq> CHR '';'') raw)))
      in raw \<in> set [''1'', ''true'', ''t'', ''yes'', ''y'', ''on''])"

fun split_on :: "char \<Rightarrow> string \<Rightarrow> string \<Rightarrow> string list" where
  \<comment> \<open>\<open>split_on sep cur s\<close>: \<open>str.split(sep)\<close> on \<open>s\<close>, \<open>cur\<close> being the piece already read\<close>
  "split_on sep cur [] = [cur]"
| "split_on sep cur (c # cs) =
     (if c = sep then cur # split_on sep [] cs else split_on sep (cur @ [c]) cs)"

definition drop_set_of :: "string \<Rightarrow> string list" where
  \<comment> \<open>\<open>{x.strip().lower() for x in drop_labels_csv.split(",") if x.strip()}\<close>\<close>
  "drop_set_of csv = [lower (strip x). x \<leftarrow> split_on (CHR '','') [] csv, strip x \<noteq> []]"

definition or_none :: "string \<Rightarrow> string option" where
  \<comment> \<open>\<open>s.strip() or None\<close>\<close>
  "or_none s = (if strip s = [] then None else Some (strip s))"

section \<open>The remote text service\<close>

datatype prompt =
    Summarize int string string
    \<comment> \<open>the summary prompt: \<open>max_len\<close>, the subject, \<open>text[:6000]\<close>\<close>
  | Classify string string
    \<comment> \<open>the triage prompt: the subject, \<open>text[:3000]\<close>\<close>

record chat_request =
  req_api_key :: string
  req_base_url :: "string option"
  req_model :: string
  req_temperature :: string
  req_prompt :: prompt

datatype chat_result =
    ChatRaises string
    \<comment> \<open>an exception anywhere between \<open>OpenAI(**kwargs)\<close> and \<open>r.choices[0].message\<close>,
        \<open>float(temperature)\<close> included; the text is \<open>f"{type(e).__name__}: {e}"\<close>\<close>
  | ChatContent "string option"
    \<comment> \<open>\<open>r.choices[0].message.content\<close>\<close>

record remote =
  sdk_importable :: bool
  env_api_key :: string
  chat :: "chat_request \<Rightarrow> chat_result"

definition isword :: "char \<Rightarrow> bool" where
  \<comment> \<open>the regex class \<open>\w\<close>: alphanumeric or underscore\<close>
  "isword c = (let n = (of_char c :: nat) in
     (48 \<le> n \<and> n \<le> 57) \<or> (65 \<le> n \<and> n \<le> 90) \<or> n = 95 \<or> (97 \<le> n \<and> n \<le> 122) \<or>
     n = 170 \<or> n = 178 \<or> n = 179 \<or> n = 181 \<or> n = 185 \<or> n = 186 \<or> (188 \<le> n \<and> n \<le> 190) \<or>
     (192 \<le> n \<and> n \<le> 214) \<or> (216 \<le> n \<and> n \<le> 246) \<or> (248 \<le> n \<and> n \<le> 255))"

definition sub_nonword_ends :: "string \<Rightarrow> string" where
  \<comment> \<open>\<open>re.sub(r"^\W+|\W+$", "", out)\<close>\<close>
  "sub_nonword_ends out =
     rev (dropWhile (\<lambda>c. \<not> isword c) (rev (dropWhile (\<lambda>c. \<not> isword c) out)))"

definition resolve_key :: "remote \<Rightarrow> string option \<Rightarrow> string" where
  \<comment> \<open>\<open>api_key or os.getenv("OPENAI_API_KEY", "")\<close>\<close>
  "resolve_key r api_key =
     (case api_key of None \<Rightarrow> env_api_key r | Some k \<Rightarrow> if k \<noteq> [] then k else env_api_key r)"

definition url_kwarg :: "string option \<Rightarrow> string option" where
  \<comment> \<open>\<open>if base_url: kwargs["base_url"] = base_url\<close>\<close>
  "url_kwarg base_url = (case base_url of None \<Rightarrow> None | Some u \<Rightarrow> if u \<noteq> [] then Some u else None)"

definition summary_request ::
  "remote \<Rightarrow> string \<Rightarrow> string \<Rightarrow> string \<Rightarrow> string option \<Rightarrow> string option \<Rightarrow> string \<Rightarrow> int
     \<Rightarrow> chat_request" where
  \<comment> \<open>what the \<open>try\<close> block of \<open>llm_summary\<close> sends\<close>
  "summary_request r text subj model api_key base_url temperature max_len =
     \<lparr>req_api_key = resolve_key r api_key, req_base_url = url_kwarg base_url,
      req_model = model, req_temperature = temperature,
      req_prompt = Summarize max_len subj (slice_to 6000 text)\<rparr>"

definition llm_summary ::
  "remote \<Rightarrow> string \<Rightarrow> string \<Rightarrow> string \<Rightarrow> string option \<Rightarrow> string option \<Rightarrow> string \<Rightarrow> int
     \<Rightarrow> string \<times> string \<times> string option" where
  \<comment> \<open>returns the sentence, the mode, and the text assigned to \<open>LAST_AI_ERROR\<close> if any\<close>
  "llm_summary r text subj model api_key base_url temperature max_len =
     (if \<not> sdk_importable r then
        (heuristic_summary text max_len, ''OFF'',
         Some ''OpenAI SDK not importable; install with: pip install openai'')
      else if resolve_key r api_key = [] then
        (heuristic_summary text max_len, ''OFF'',
         Some ''OPENAI_API_KEY not set (env var or [ai] api_key).'')
      else
        (case chat r (summary_request r text subj model api_key base_url temperature max_len) of
           ChatRaises e \<Rightarrow> (heuristic_summary text max_len, ''FALLBACK'', Some e)
         | ChatContent None \<Rightarrow>
             (heuristic_summary text max_len, ''FALLBACK'',
              Some (''AttributeError: '' @ [CHR 0x27] @ ''NoneType'' @ [CHR 0x27] @
                    '' object has no attribute '' @ [CHR 0x27] @ ''strip'' @ [CHR 0x27]))
         | ChatContent (Some content) \<Rightarrow>
             (let out = sub_nonword_ends (strip content);
                  out = strip (slice_to max_len out)
              in (if out \<noteq> [] then out else heuristic_summary text max_len, ''ON'', None))))"

fun contains :: "string \<Rightarrow> string \<Rightarrow> bool" where
  \<comment> \<open>\<open>sub in s\<close>\<close>
  "contains sub [] = (sub = [])"
| "contains sub (c # cs) = (take (length sub) (c # cs) = sub \<or> contains sub cs)"

definition classify_request ::
  "remote \<Rightarrow> string \<Rightarrow> string \<Rightarrow> string \<Rightarrow> string option \<Rightarrow> string option \<Rightarrow> chat_request" where
  \<comment> \<open>what the \<open>try\<close> block of \<open>ai_classify_label\<close> sends\<close>
  "classify_request r text subj model api_key base_url =
     \<lparr>req_api_key = resolve_key r api_key, req_base_url = url_kwarg base_url,
      req_model = model, req_temperature = ''1'',
      req_prompt = Classify subj (slice_to 3000 text)\<rparr>"

definition ai_classify_label ::
  "remote \<Rightarrow> string \<Rightarrow> string \<Rightarrow> string \<Rightarrow> string option \<Rightarrow> string option
     \<Rightarrow> string \<times> string \<times> string option" where
  \<comment> \<open>returns the label, the mode, and the text assigned to \<open>LAST_AI_ERROR\<close> if any\<close>
  "ai_classify_label r text subj model api_key base_url =
     (if \<not> sdk_importable r then (''actionable'', ''OFF'', None)
      else if resolve_key r api_key = [] then (''actionable'', ''OFF'', None)
      else
        (case chat r (classify_request r text subj model api_key base_url) of
           ChatRaises e \<Rightarrow> (''actionable'', ''FALLBACK'', Some e)
         | ChatContent content \<Rightarrow>
             (let label = lower (strip (case content of None \<Rightarrow> [] | Some c \<Rightarrow> c))
              in (if contains ''market'' label then ''marketing''
                  else if contains ''fyi'' label then ''fyi''
                  else ''actionable'', ''ON'', None))))"


section \<open>The poller\<close>

text \<open>
  What one call of \<open>check_mail\<close> meets outside the process is its \<open>cycle_env\<close>: the
  configuration, the IMAP server, the remote text service and the clock. A message is kept
  as the four texts that \<open>check_mail\<close> extracts from it.
\<close>

record message =
  msg_subject :: string
  msg_sender_email :: string
  msg_received_str :: string
  msg_body :: string

datatype search_result =
    SearchRaises
    \<comment> \<open>\<open>M.uid("search", ...)\<close> or the reading of its answer raises\<close>
  | SearchResult string "string list"
    \<comment> \<open>\<open>typ\<close> and \<open>data[0].split()\<close>\<close>

datatype fetch_result =
    FetchRaises
    \<comment> \<open>\<open>M.uid("fetch", ...)\<close> or the reading of its answer raises\<close>
  | FetchNotOK
    \<comment> \<open>\<open>typ != "OK" or not msg_data or not msg_data[0]\<close>\<close>
  | Fetched message

record mailbox =
  connects :: bool
  \<comment> \<open>whether the connection, \<open>login\<close> and \<open>select\<close> return\<close>
  search :: "string \<Rightarrow> search_result"
  fetch :: "string \<Rightarrow> fetch_result"
  logout_raises :: bool

record cycle_env =
  cfg :: config
  mbox :: mailbox
  ai :: remote
  has_callback :: bool
  \<comment> \<open>whether \<open>self.status_callback\<close> is set\<close>
  utcnow :: "string \<Rightarrow> int"
  \<comment> \<open>the clock when the task of this uid is inserted\<close>

record cycle_state =
  st_db :: db
  max_seen_uid :: int
  last_ai_mode :: "string option"
  new_count :: nat
  dropped :: nat
  last_ai_error :: "string option"
  \<comment> \<open>the last text this cycle assigned to the global \<open>LAST_AI_ERROR\<close>\<close>

datatype outcome =
    Returned "string option"
    \<comment> \<open>the status passed to \<open>status_callback\<close>, if one was passed\<close>
  | Raised py_error

definition decode :: "string \<Rightarrow> string option" where
  \<comment> \<open>\<open>bytes.decode()\<close> on ASCII bytes; a byte from 0x80 on is taken to raise\<close>
  "decode u = (if \<forall>c \<in> set u. (of_char c :: nat) < 128 then Some u else None)"

fun decode_all :: "string list \<Rightarrow> string list option" where
  "decode_all [] = Some []"
| "decode_all (u # us) =
     (case decode u of None \<Rightarrow> None
      | Some v \<Rightarrow> (case decode_all us of None \<Rightarrow> None | Some vs \<Rightarrow> Some (v # vs)))"

definition int_key :: "string \<Rightarrow> int" where
  "int_key u = (case py_int u of None \<Rightarrow> 0 | Some i \<Rightarrow> i)"

definition sorted_by_int :: "string list \<Rightarrow> string list option" where
  \<comment> \<open>\<open>sorted(uids, key=lambda s: int(s))\<close>; \<open>None\<close> is the \<open>ValueError\<close> of \<open>int\<close>\<close>
  "sorted_by_int uids =
     (if \<exists>u \<in> set uids. py_int u = None then None else Some (sort_key int_key uids))"

definition raise_max :: "string \<Rightarrow> cycle_state \<Rightarrow> py_error option \<times> cycle_state" where
  \<comment> \<open>\<open>max_seen_uid = max(max_seen_uid, int(uid_s))\<close>\<close>
  "raise_max uid_s st =
     (case py_int uid_s of
        None \<Rightarrow> (Some ValueError, st)
      | Some i \<Rightarrow> (None, st\<lparr>max_seen_uid := max (max_seen_uid st) i\<rparr>))"

definition set_error :: "string option \<Rightarrow> cycle_state \<Rightarrow> cycle_state" where
  "set_error e st = (case e of None \<Rightarrow> st | Some _ \<Rightarrow> st\<lparr>last_ai_error := e\<rparr>)"

definition model_of :: "cycle_env \<Rightarrow> string" where
  "model_of env = cfg_get (ai_model (cfg env)) ''gpt-5-mini''"

definition ai_key_of :: "cycle_env \<Rightarrow> string option" where
  "ai_key_of env = or_none (cfg_get (ai_api_key (cfg env)) [])"

definition base_url_of :: "cycle_env \<Rightarrow> string option" where
  "base_url_of env = or_none (cfg_get (ai_base_url (cfg env)) [])"

definition temperature_of :: "cycle_env \<Rightarrow> string" where
  "temperature_of env = cfg_get (ai_temperature (cfg env)) ''1''"

definition classify_enabled_of :: "cycle_env \<Rightarrow> bool" where
  "classify_enabled_of env = get_bool (ai_classify_before_add (cfg env)) True"

definition drop_set_in :: "cycle_env \<Rightarrow> string list" where
  "drop_set_in env = drop_set_of (cfg_get (ai_drop_labels (cfg env)) ''marketing, fyi'')"

definition classify_msg :: "cycle_env \<Rightarrow> message \<Rightarrow> string \<times> string \<times> string option" where
  \<comment> \<open>the call of \<open>ai_classify_label\<close> in the loop\<close>
  "classify_msg env msg =
     ai_classify_label (ai env) (msg_body msg) (msg_subject msg)
       (model_of env) (ai_key_of env) (base_url_of env)"

definition summarize_msg :: "cycle_env \<Rightarrow> bool \<Rightarrow> message \<Rightarrow> string \<times> string \<times> string option" where
  \<comment> \<open>\<open>llm_summary(...) if ai_enabled else (heuristic_summary(body, 140), "OFF")\<close>\<close>
  "summarize_msg env ai_on msg =
     (if ai_on
      then llm_summary (ai env) (msg_body msg) (msg_subject msg)
             (model_of env) (ai_key_of env) (base_url_of env) (temperature_of env) 140
      else (heuristic_summary (msg_body msg) 140, ''OFF'', None))"

definition process_uid ::
  "cycle_env \<Rightarrow> bool \<Rightarrow> string \<Rightarrow> cycle_state \<Rightarrow> py_error option \<times> cycle_state" where
  \<comment> \<open>one pass of the \<open>for uid_s in uids\<close> loop; \<open>Some e\<close> is an exception leaving the loop.
      The \<open>+FLAGS\<close> store on the server changes nothing here and its exception is dropped.\<close>
  "process_uid env ai_on uid_s st =
     (if is_uid_processed uid_s (st_db st) then raise_max uid_s st
      else
        (case fetch (mbox env) uid_s of
           FetchRaises \<Rightarrow> (Some IMAPError, st)
         | FetchNotOK \<Rightarrow> (None, st)
         | Fetched msg \<Rightarrow>
             (let cls = classify_msg env msg;
                  st1 = (if classify_enabled_of env then set_error (snd (snd cls)) st else st)
              in
                if classify_enabled_of env \<and> fst cls \<in> set (drop_set_in env) then
                  raise_max uid_s
                    (st1\<lparr>dropped := dropped st1 + 1,
                         st_db := mark_uid_processed uid_s (st_db st1)\<rparr>)
                else
                  (let snip = slice_to 140
                                (case splitlines (strip (msg_body msg)) of [] \<Rightarrow> [] | l # _ \<Rightarrow> l);
                       sm = summarize_msg env ai_on msg;
                       st2 = set_error (snd (snd sm)) st1;
                       line = ''From: '' @ msg_sender_email msg @ '' | Received: '' @
                              msg_received_str msg @ '' | Summary: '' @ fst sm;
                       created = add_task (utcnow env uid_s) line (msg_subject msg) snip
                                   (Some uid_s) (st_db st2)
                   in raise_max uid_s
                        (st2\<lparr>last_ai_mode := Some (fst (snd sm)), st_db := snd created\<rparr>)))))"

fun process_uids ::
  "cycle_env \<Rightarrow> bool \<Rightarrow> string list \<Rightarrow> cycle_state \<Rightarrow> py_error option \<times> cycle_state" where
  "process_uids env ai_on [] st = (None, st)"
| "process_uids env ai_on (u # us) st =
     (case process_uid env ai_on u st of
        (Some e, st') \<Rightarrow> (Some e, st')
      | (None, st') \<Rightarrow> process_uids env ai_on us st')"

definition status :: "cycle_env \<Rightarrow> string \<Rightarrow> string option" where
  \<comment> \<open>\<open>if self.status_callback: self.status_callback(text)\<close>\<close>
  "status env text = (if has_callback env then Some text else None)"

definition logout :: "cycle_env \<Rightarrow> outcome \<Rightarrow> outcome" where
  \<comment> \<open>\<open>M.logout()\<close>, then what follows it\<close>
  "logout env rest = (if logout_raises (mbox env) then Raised IMAPError else rest)"

definition cursor_of :: "string \<Rightarrow> int option" where
  \<comment> \<open>\<open>int(last_uid or 0)\<close>; \<open>None\<close> is \<open>ValueError\<close>\<close>
  "cursor_of last_uid = (if last_uid = [] then Some 0 else py_int last_uid)"

definition base_query :: "string \<Rightarrow> string option" where
  \<comment> \<open>\<open>f"(UID {int(last_uid)+1}:*)" if last_uid else "ALL"\<close>\<close>
  "base_query last_uid =
     (if last_uid = [] then Some ''ALL''
      else map_option (\<lambda>i. ''(UID '' @ py_str (i + 1) @ '':*)'') (py_int last_uid))"

definition final_status :: "cycle_env \<Rightarrow> cycle_state \<Rightarrow> string option" where
  \<comment> \<open>the last two lines of \<open>check_mail\<close>\<close>
  "final_status env st =
     (case last_ai_mode st of
        None \<Rightarrow> None
      | Some m \<Rightarrow>
          if has_callback env \<and> m \<noteq> [] then
            Some (''AI '' @ m @ '' | +'' @ py_str (int (new_count st)) @
                  '' / dropped '' @ py_str (int (dropped st)))
          else None)"

definition start_state :: "db \<Rightarrow> int \<Rightarrow> cycle_state" where
  \<comment> \<open>the variables of the loop before its first pass\<close>
  "start_state d c =
     \<lparr>st_db = d, max_seen_uid = c, last_ai_mode = None, new_count = 0, dropped = 0,
      last_ai_error = None\<rparr>"

definition ingest :: "cycle_env \<Rightarrow> string \<Rightarrow> string list \<Rightarrow> db \<Rightarrow> outcome \<times> db" where
  \<comment> \<open>\<open>check_mail\<close> from \<open>uids = sorted(...)\<close> on\<close>
  "ingest env last_uid uids d =
     (case sorted_by_int uids of
        None \<Rightarrow> (Raised ValueError, d)
      | Some sorted_uids \<Rightarrow>
          (case getboolean (ai_enabled (cfg env)) True of
             Inl e \<Rightarrow> (Raised e, d)
           | Inr ai_on \<Rightarrow>
               (case cursor_of last_uid of
                  None \<Rightarrow> (Raised ValueError, d)
                | Some c \<Rightarrow>
                    (case process_uids env ai_on sorted_uids (start_state d c) of
                       (Some e, st) \<Rightarrow> (Raised e, st_db st)
                     | (None, st) \<Rightarrow>
                         (logout env (Returned (final_status env st)),
                          save_metadata ''last_uid'' (py_str (max_seen_uid st)) (st_db st))))))"

definition search_query :: "string \<Rightarrow> string \<Rightarrow> string" where
  \<comment> \<open>\<open>f'(SINCE "{cutoff}") {base_q}' if cutoff else base_q\<close>\<close>
  "search_query cutoff base_q =
     (if cutoff \<noteq> []
      then ''(SINCE '' @ [CHR 0x22] @ cutoff @ [CHR 0x22] @ '') '' @ base_q
      else base_q)"

definition check_mail :: "cycle_env \<Rightarrow> db \<Rightarrow> outcome \<times> db" where
  "check_mail env d =
     (case getboolean (imap_ssl (cfg env)) True of
        Inl e \<Rightarrow> (Raised e, d)
      | Inr use_ssl \<Rightarrow>
          if \<not> (cfg_get (imap_username (cfg env)) [] \<noteq> [] \<and>
                 cfg_get (imap_password (cfg env)) [] \<noteq> []) then
            (Returned (status env ''IMAP OFF''), d)
          else if \<not> connects (mbox env) then (Raised IMAPError, d)
          else
            (let cutoff = strip (cfg_get (imap_cutoff_date (cfg env)) []);
                 last_uid = get_metadata ''last_uid'' ''0'' d
             in case base_query last_uid of
                  None \<Rightarrow> (Raised ValueError, d)
                | Some base_q \<Rightarrow>
                    (case search (mbox env) (search_query cutoff base_q) of
                       SearchRaises \<Rightarrow> (Raised IMAPError, d)
                     | SearchResult typ toks \<Rightarrow>
                         if typ \<noteq> ''OK'' then
                           (logout env (Returned (status env ''IMAP ERR'')), d)
                         else
                           (case decode_all [u \<leftarrow> toks. u \<noteq> []] of
                              None \<Rightarrow> (Raised UnicodeDecodeError, d)
                            | Some uids \<Rightarrow>
                                if uids = [] then
                                  (logout env (Returned (status env ''IMAP OK (no new)'')), d)
                                else ingest env last_uid uids d))))"

section \<open>Histories of the store\<close>

datatype op =
    CheckMail cycle_env
  | ListActive int int int
  | MarkCompleted int nat bool
  | DeleteTask nat
  | ArchiveCompleted int
  | SaveGeometry string

fun apply_op :: "op \<Rightarrow> db \<Rightarrow> db" where
  \<comment> \<open>the store after one call made by the poller thread or by the window\<close>
  "apply_op (CheckMail env) d = snd (check_mail env d)"
| "apply_op (ListActive now now2 hours) d =
     (case list_active_tasks now now2 hours d of Inl _ \<Rightarrow> d | Inr r \<Rightarrow> snd r)"
| "apply_op (MarkCompleted now task_id done) d = mark_task_completed now task_id done d"
| "apply_op (DeleteTask task_id) d = delete_task task_id d"
| "apply_op (ArchiveCompleted now) d = snd (archive_all_completed_now now d)"
| "apply_op (SaveGeometry g) d = save_metadata ''window_geometry'' g d"

fun run :: "op list \<Rightarrow> db \<Rightarrow> db" where
  "run [] d = d"
| "run (x # xs) d = run xs (apply_op x d)"


section \<open>Calls of add_task that overlap\<close>

text \<open>
  \<open>check_mail\<close> runs on the poller thread and on one more thread for each \<open>Poll Now\<close>, with no
  lock, and \<open>add_task\<close> makes three statements, each in a connection of its own and
  committed at once: the \<open>SELECT\<close> of \<open>is_uid_processed\<close>, the \<open>INSERT\<close>, and the \<open>INSERT OR
  IGNORE\<close> of \<open>mark_uid_processed\<close>. An \<open>add_call\<close> is one call of \<open>add_task\<close> with the place it
  has reached; \<open>add_task_step\<close> lets it make its next statement on the shared store.
\<close>

datatype add_pc =
    AtCheck
  | AtInsert
  | AtMark
  | Returns bool

record add_call =
  c_now :: int
  c_text :: string
  c_subject :: string
  c_snippet :: string
  c_uid :: "string option"
  c_pc :: add_pc

definition start_call :: "int \<Rightarrow> string \<Rightarrow> string \<Rightarrow> string \<Rightarrow> string option \<Rightarrow> add_call" where
  "start_call now ln subj snip uid =
     \<lparr>c_now = now, c_text = ln, c_subject = subj, c_snippet = snip, c_uid = uid,
      c_pc = AtCheck\<rparr>"

definition add_task_step :: "add_call \<Rightarrow> db \<Rightarrow> add_call \<times> db" where
  "add_task_step c d =
     (case c_pc c of
        AtCheck \<Rightarrow>
          if (case c_uid c of None \<Rightarrow> False | Some u \<Rightarrow> u \<noteq> [] \<and> is_uid_processed u d)
          then (c\<lparr>c_pc := Returns False\<rparr>, d)
          else (c\<lparr>c_pc := AtInsert\<rparr>, d)
      | AtInsert \<Rightarrow>
          (c\<lparr>c_pc := (case c_uid c of None \<Rightarrow> Returns True
                        | Some u \<Rightarrow> if u \<noteq> [] then AtMark else Returns True)\<rparr>,
           insert_task (c_now c) (c_text c) (c_subject c) (c_snippet c) (c_uid c) d)
      | AtMark \<Rightarrow>
          (c\<lparr>c_pc := Returns True\<rparr>,
           (case c_uid c of None \<Rightarrow> d | Some u \<Rightarrow> mark_uid_processed u d))
      | Returns b \<Rightarrow> (c, d))"

fun interleave :: "bool list \<Rightarrow> add_call \<times> add_call \<times> db \<Rightarrow> add_call \<times> add_call \<times> db" where
  \<comment> \<open>two calls on two threads; each entry of the schedule names the call that makes the
      next statement, \<open>False\<close> the first and \<open>True\<close> the second. A call that gets no turn any
      more is a thread killed where it stands.\<close>
  "interleave [] s = s"
| "interleave (b # bs) (c1, c2, d) =
     (if b then interleave bs (c1, fst (add_task_step c2 d), snd (add_task_step c2 d))
      else interleave bs (fst (add_task_step c1 d), c2, snd (add_task_step c1 d)))"

section \<open>Invariants of the store\<close>

definition uid_count :: "string \<Rightarrow> db \<Rightarrow> nat" where
  \<comment> \<open>the number of task rows whose \<open>email_uid\<close> is \<open>m\<close>\<close>
  "uid_count m d = length [t \<leftarrow> tasks d. email_uid t = Some m]"

definition store_inv :: "db \<Rightarrow> bool" where
  \<comment> \<open>every uid of a task row is a non-empty processed uid, and no two rows share one\<close>
  "store_inv d \<longleftrightarrow>
     (\<forall>t \<in> set (tasks d). \<forall>u. email_uid t = Some u \<longrightarrow> u \<noteq> [] \<and> u \<in> processed_uids d) \<and>
     (\<forall>m. uid_count m d \<le> 1)"

definition read_cursor :: "db \<Rightarrow> int option" where
  \<comment> \<open>the persisted cursor as \<open>check_mail\<close> reads it; \<open>None\<close> when \<open>int\<close> raises on it\<close>
  "read_cursor d = cursor_of (get_metadata ''last_uid'' ''0'' d)"

section \<open>What a cycle has to report\<close>

text \<open>
  The two definitions below follow the words of the specification, not the loop: which
  messages of a cycle count as dropped and which as summarised, each told from the
  message alone.
\<close>

definition is_dropped :: "cycle_env \<Rightarrow> string \<Rightarrow> bool" where
  \<comment> \<open>the message is fetched, classification is on and the label is a drop label\<close>
  "is_dropped env u =
     (case fetch (mbox env) u of
        Fetched msg \<Rightarrow>
          classify_enabled_of env \<and> fst (classify_msg env msg) \<in> set (drop_set_in env)
      | _ \<Rightarrow> False)"

definition is_summarised :: "cycle_env \<Rightarrow> string \<Rightarrow> bool" where
  \<comment> \<open>the message is fetched and not dropped\<close>
  "is_summarised env u =
     (case fetch (mbox env) u of Fetched msg \<Rightarrow> \<not> is_dropped env u | _ \<Rightarrow> False)"

definition summary_mode :: "cycle_env \<Rightarrow> bool \<Rightarrow> string \<Rightarrow> string" where
  \<comment> \<open>the AI mode with which the message of this uid is summarised\<close>
  "summary_mode env ai_on u =
     (case fetch (mbox env) u of
        Fetched msg \<Rightarrow> fst (snd (summarize_msg env ai_on msg))
      | _ \<Rightarrow> [])"

section \<open>Example stores and environments\<close>

definition db_completed :: db where
  \<comment> \<open>a task of message 5 completed at 1 ms, and an open manual task\<close>
  "db_completed =
     \<lparr>tasks = [\<lparr>tid = 1, email_uid = Some ''5'', subject = ''s'', snippet = ''hello'',
                 task_text = ''note'', created_at = 0, completed_at = Some (Iso 1000),
                 is_completed = 1, archived_at = None\<rparr>,
               \<lparr>tid = 2, email_uid = None, subject = ''s2'', snippet = ''bye'',
                 task_text = ''note 2'', created_at = 5, completed_at = None,
                 is_completed = 0, archived_at = None\<rparr>],
      seq = 2, metadata = [], processed_uids = {''5''}\<rparr>"

definition cfg_plain :: config where
  \<comment> \<open>credentials set, classification and AI summaries switched off\<close>
  "cfg_plain =
     \<lparr>imap_username = Some ''user'', imap_password = Some ''secret'', imap_ssl = None,
      imap_cutoff_date = None, imap_mark_as_read = None, ai_enabled = Some ''false'',
      ai_model = None, ai_temperature = None, ai_api_key = None, ai_base_url = None,
      ai_classify_before_add = Some ''false'', ai_drop_labels = None\<rparr>"

definition remote_off :: remote where
  \<comment> \<open>the SDK cannot be imported\<close>
  "remote_off = \<lparr>sdk_importable = False, env_api_key = [], chat = (\<lambda>_. ChatRaises [])\<rparr>"

definition remote_err :: remote where
  \<comment> \<open>a key is set and every call raises\<close>
  "remote_err =
     \<lparr>sdk_importable = True, env_api_key = ''sk'',
      chat = (\<lambda>_. ChatRaises ''APIConnectionError: Connection error.'')\<rparr>"


definition hello_msg :: message where
  "hello_msg =
     \<lparr>msg_subject = ''Hi'', msg_sender_email = ''a@b.c'', msg_received_str = ''2024-01-01 10:00'',
      msg_body = ''hello''\<rparr>"

definition mailbox_of :: "string list \<Rightarrow> (string \<Rightarrow> fetch_result) \<Rightarrow> mailbox" where
  \<comment> \<open>a server that answers every search with these tokens\<close>
  "mailbox_of toks f =
     \<lparr>connects = True, search = (\<lambda>_. SearchResult ''OK'' toks), fetch = f, logout_raises = False\<rparr>"

definition env_of :: "config \<Rightarrow> mailbox \<Rightarrow> cycle_env" where
  "env_of c m = \<lparr>cfg = c, mbox = m, ai = remote_off, has_callback = True, utcnow = (\<lambda>_. 0)\<rparr>"

definition env_one :: cycle_env where
  \<comment> \<open>one new message, uid 5\<close>
  "env_one = env_of cfg_plain (mailbox_of [''5''] (\<lambda>_. Fetched hello_msg))"

definition env_gap :: cycle_env where
  \<comment> \<open>two new messages, uids 5 and 7; the fetch of 5 fails\<close>
  "env_gap =
     env_of cfg_plain
       (mailbox_of [''5'', ''7''] (\<lambda>u. if u = ''5'' then FetchNotOK else Fetched hello_msg))"

definition env_no_new :: cycle_env where
  \<comment> \<open>the search finds nothing\<close>
  "env_no_new = env_of cfg_plain (mailbox_of [] (\<lambda>_. FetchNotOK))"



definition remote_marketing :: remote where
  \<comment> \<open>a key is set and every call answers \<open>Marketing\<close>\<close>
  "remote_marketing =
     \<lparr>sdk_importable = True, env_api_key = ''sk'', chat = (\<lambda>_. ChatContent (Some ''Marketing''))\<rparr>"

definition env_marketing :: cycle_env where
  \<comment> \<open>one new message, uid 9, classified as marketing with the default drop labels\<close>
  "env_marketing =
     (env_of (cfg_plain\<lparr>ai_classify_before_add := None\<rparr>)
        (mailbox_of [''9''] (\<lambda>_. Fetched hello_msg)))\<lparr>ai := remote_marketing\<rparr>"

definition remote_mixed :: remote where
  \<comment> \<open>a key is set; the body \<open>hello\<close> is labelled marketing, any other body actionable; every
      summary call raises\<close>
  "remote_mixed =
     \<lparr>sdk_importable = True, env_api_key = ''sk'',
      chat = (\<lambda>r. case req_prompt r of
                Classify _ body \<Rightarrow>
                  ChatContent (Some (if body = ''hello'' then ''marketing'' else ''actionable''))
              | Summarize _ _ _ \<Rightarrow> ChatRaises ''APITimeoutError: Request timed out.'')\<rparr>"

definition order_msg :: message where
  "order_msg =
     \<lparr>msg_subject = ''PO 4421'', msg_sender_email = ''c@d.e'',
      msg_received_str = ''2024-01-02 09:30'', msg_body = ''Please confirm the delivery.''\<rparr>"

definition env_mixed :: cycle_env where
  \<comment> \<open>two new messages with AI on: uid 5 is dropped, uid 7 is summarised\<close>
  "env_mixed =
     (env_of (cfg_plain\<lparr>ai_classify_before_add := None, ai_enabled := None\<rparr>)
        (mailbox_of [''7'', ''5'']
           (\<lambda>u. if u = ''5'' then Fetched hello_msg else Fetched order_msg)))
     \<lparr>ai := remote_mixed\<rparr>"

definition call_five :: add_call where
  \<comment> \<open>the call of \<open>add_task\<close> that a cycle served as \<open>env_one\<close> makes for uid 5\<close>
  "call_five =
     start_call 0 ''From: a@b.c | Received: 2024-01-01 10:00 | Summary: hello'' ''Hi'' ''hello''
       (Some ''5'')"

section \<open>The heuristic summary\<close>

lemma rstrip_length: "length (rstrip s) \<le> length s"
  unfolding rstrip_def using length_dropWhile_le [of isspace "rev s"] by simp

lemma rstrip_subset: "set (rstrip s) \<subseteq> set s"
  unfolding rstrip_def using set_dropWhileD [of _ isspace "rev s"] by auto

lemma rstrip_no_trailing: "rstrip s = [] \<or> \<not> isspace (last (rstrip s))"
proof (cases "dropWhile isspace (rev s)")
  case Nil
  then show ?thesis by (simp add: rstrip_def)
next
  case (Cons c cs)
  then have "\<not> isspace c"
    using hd_dropWhile [of isspace "rev s"] by auto
  with Cons show ?thesis by (simp add: rstrip_def)
qed

lemma slice_to_length: "0 \<le> n \<Longrightarrow> int (length (slice_to n s)) \<le> n"
  by (simp add: slice_to_def)

lemma slice_to_subset: "set (slice_to n s) \<subseteq> set s"
  by (auto simp: slice_to_def dest: in_set_takeD)

lemma sub_ws_chars: "c \<in> set (sub_ws s) \<Longrightarrow> c = CHR '' '' \<or> (c \<in> set s \<and> \<not> isspace c)"
  by (induction s rule: sub_ws.induct) (auto split: if_splits dest: set_dropWhileD)

lemma newline_isspace: "isspace (CHR 0x0A)"
  by (simp add: isspace_def)

lemma sub_ws_no_newline: "CHR 0x0A \<notin> set (sub_ws s)"
  using sub_ws_chars [of "CHR 0x0A" s] newline_isspace by auto

lemma replace_nl_no_newline: "CHR 0x0A \<notin> set (replace_nl s)"
  by (auto simp: replace_nl_def)

lemma rstrip_slice_ok:
  assumes "0 \<le> max_len" and "CHR 0x0A \<notin> set s"
  shows "int (length (rstrip (slice_to max_len s))) \<le> max_len \<and>
         CHR 0x0A \<notin> set (rstrip (slice_to max_len s)) \<and>
         (rstrip (slice_to max_len s) = [] \<or> \<not> isspace (last (rstrip (slice_to max_len s))))"
proof -
  have "int (length (rstrip (slice_to max_len s))) \<le> max_len"
    using rstrip_length [of "slice_to max_len s"] slice_to_length [OF assms(1), of s] by linarith
  moreover have "CHR 0x0A \<notin> set (rstrip (slice_to max_len s))"
    using rstrip_subset [of "slice_to max_len s"] slice_to_subset [of max_len s] assms(2) by blast
  ultimately show ?thesis
    using rstrip_no_trailing [of "slice_to max_len s"] by simp
qed

lemma first_summary_line_ok:
  "0 \<le> max_len \<Longrightarrow> first_summary_line max_len ls = Some r \<Longrightarrow>
     int (length r) \<le> max_len \<and> CHR 0x0A \<notin> set r \<and> (r = [] \<or> \<not> isspace (last r))"
proof (induction ls)
  case Nil
  then show ?case by simp
next
  case (Cons l ls)
  show ?case
  proof (cases "strip l \<noteq> [] \<and> \<not> startswith_gt (strip l)")
    case True
    with Cons.prems(2) have "r = rstrip (slice_to max_len (sub_ws (strip l)))"
      by (simp add: Let_def)
    then show ?thesis
      using rstrip_slice_ok [OF Cons.prems(1) sub_ws_no_newline [of "strip l"]] by simp
  next
    case False
    with Cons.prems(2) have "first_summary_line max_len ls = Some r"
      by (auto simp: Let_def)
    then show ?thesis using Cons.IH Cons.prems(1) by simp
  qed
qed

text \<open>
  Claim C10. For every text and every \<open>max_len \<ge> 0\<close>, \<open>heuristic_summary\<close> (a total function:
  its loops are the terminating recursions above) returns a string of at most \<open>max_len\<close>
  characters that contains no newline and does not end in whitespace.
\<close>

theorem heuristic_summary_bounded:
  "0 \<le> max_len \<Longrightarrow>
     int (length (heuristic_summary text max_len)) \<le> max_len \<and>
     CHR 0x0A \<notin> set (heuristic_summary text max_len) \<and>
     (heuristic_summary text max_len = [] \<or> \<not> isspace (last (heuristic_summary text max_len)))"
proof -
  assume m: "0 \<le> max_len"
  show ?thesis
  proof (cases "first_summary_line max_len (splitlines text)")
    case None
    then show ?thesis
      using rstrip_slice_ok [OF m replace_nl_no_newline [of "strip text"]]
      by (simp add: heuristic_summary_def)
  next
    case (Some r)
    then show ?thesis
      using first_summary_line_ok [OF m Some] by (simp add: heuristic_summary_def)
  qed
qed

theorem heuristic_summary_bounded_witness:
  "(0::int) \<le> 6 \<and>
   heuristic_summary (''  > q'' @ [CHR 0x0A] @ ''  hello    world  '') 6 = ''hello'' \<and>
   int (length (heuristic_summary (''  > q'' @ [CHR 0x0A] @ ''  hello    world  '') 6)) \<le> 6 \<and>
   CHR 0x0A \<notin> set (heuristic_summary (''  > q'' @ [CHR 0x0A] @ ''  hello    world  '') 6)"
  using heuristic_summary_bounded [of 6 "''  > q'' @ [CHR 0x0A] @ ''  hello    world  ''"]
  by (simp add: heuristic_summary_def splitlines_def islinebreak_def isspace_def strip_def
      lstrip_def rstrip_def startswith_gt_def slice_to_def)

section \<open>Archival on read\<close>

lemma set_select_active:
  "set (select_active d) = row_of ` {t \<in> set (tasks d). archived_at t = None}"
  by (auto simp: select_active_def)

lemma no_expired_after_archive:
  assumes "ids = map fst (filter (expired cutoff) (select_active d))"
  shows "filter (expired cutoff) (select_active (archive_ids a ids d)) = []"
proof -
  have "\<not> expired cutoff r" if "r \<in> set (select_active (archive_ids a ids d))" for r
  proof
    assume e: "expired cutoff r"
    from that obtain t where t: "t \<in> set (tasks (archive_ids a ids d))"
      "archived_at t = None" "r = row_of t"
      by (auto simp: set_select_active)
    from t(1) obtain t0 where t0: "t0 \<in> set (tasks d)"
      "t = (if tid t0 \<in> set ids then t0\<lparr>archived_at := Some a\<rparr> else t0)"
      by (auto simp: archive_ids_def)
    with t(2) have same: "tid t0 \<notin> set ids" "t = t0"
      by (auto split: if_splits)
    with t t0 have "r \<in> set (select_active d)"
      by (auto simp: set_select_active)
    with e have "fst r \<in> set ids"
      using assms by auto
    with same t(3) show False by (simp add: row_of_def)
  qed
  then show ?thesis by (simp add: filter_empty_conv)
qed

lemma list_active_tasks_stable:
  assumes "cutoff_of now h = Some cutoff" "filter (expired cutoff) (select_active d) = []"
  shows "list_active_tasks now a h d =
           Inr ((select_active d, count_active 0 d, count_active 1 d), d)"
  using assms by (simp add: list_active_tasks_def)

text \<open>
  Claim C5. When \<open>list_active_tasks\<close> has returned rows and counts \<open>res\<close> and left the store
  \<open>d'\<close>, a second call at the same clock reading \<open>now\<close> (nothing having been completed in
  between) returns the same rows and counts and leaves the store as it is: it archives
  nothing, so no task is stamped twice. The stamp clocks \<open>a1\<close> and \<open>a2\<close> are free.
\<close>

theorem list_active_tasks_idempotent:
  "list_active_tasks now a1 h d = Inr (res, d') \<Longrightarrow>
     list_active_tasks now a2 h d' = Inr (res, d')"
proof -
  assume first: "list_active_tasks now a1 h d = Inr (res, d')"
  then obtain cutoff where c: "cutoff_of now h = Some cutoff"
    by (auto simp: list_active_tasks_def split: option.splits)
  define ids where "ids = map fst (filter (expired cutoff) (select_active d))"
  show ?thesis
  proof (cases "ids = []")
    case True
    with first c have "d' = d" "res = (select_active d, count_active 0 d, count_active 1 d)"
      by (auto simp: list_active_tasks_def ids_def)
    moreover from True have "filter (expired cutoff) (select_active d) = []"
      by (simp add: ids_def)
    ultimately show ?thesis
      using list_active_tasks_stable [OF c] by simp
  next
    case False
    with first c have "d' = archive_ids a1 ids d"
      "res = (select_active d', count_active 0 d', count_active 1 d')"
      by (auto simp: list_active_tasks_def ids_def Let_def)
    moreover have "filter (expired cutoff) (select_active (archive_ids a1 ids d)) = []"
      using no_expired_after_archive [OF ids_def] .
    ultimately show ?thesis
      using list_active_tasks_stable [OF c] by simp
  qed
qed

theorem list_active_tasks_idempotent_witness:
  "list_active_tasks 46800000000000 46800000000001 12 db_completed =
     Inr (([(2, ''note 2'', 0, None, ''s2'')], 1, 0),
          archive_ids 46800000000001 [1] db_completed) \<and>
   list_active_tasks 46800000000000 46800000000002 12
       (archive_ids 46800000000001 [1] db_completed) =
     Inr (([(2, ''note 2'', 0, None, ''s2'')], 1, 0),
          archive_ids 46800000000001 [1] db_completed)"
proof -
  have first: "list_active_tasks 46800000000000 46800000000001 12 db_completed =
     Inr (([(2, ''note 2'', 0, None, ''s2'')], 1, 0),
          archive_ids 46800000000001 [1] db_completed)"
    by code_simp
  show ?thesis
    using first list_active_tasks_idempotent [OF first, of 46800000000002] by simp
qed

section \<open>Summaries by the remote service\<close>





section \<open>Classification\<close>


lemma raise_max_fields:
  "dropped (snd (raise_max u st)) = dropped st"
  "st_db (snd (raise_max u st)) = st_db st"
  "new_count (snd (raise_max u st)) = new_count st"
  "last_ai_mode (snd (raise_max u st)) = last_ai_mode st"
  by (simp_all add: raise_max_def split: option.splits)

lemma set_error_fields:
  "dropped (set_error e st) = dropped st"
  "st_db (set_error e st) = st_db st"
  "new_count (set_error e st) = new_count st"
  "max_seen_uid (set_error e st) = max_seen_uid st"
  "last_ai_mode (set_error e st) = last_ai_mode st"
  by (simp_all add: set_error_def split: option.splits)





section \<open>Steps of the loop\<close>

lemma raise_max_db: "st_db (snd (raise_max u st)) = st_db st"
  by (simp add: raise_max_def split: option.splits)

lemma raise_max_seen:
  "max_seen_uid (snd (raise_max u st)) =
     (case py_int u of None \<Rightarrow> max_seen_uid st | Some i \<Rightarrow> max (max_seen_uid st) i)"
  by (simp add: raise_max_def split: option.splits)

lemma py_int_Nil: "py_int [] = None"
  by (simp add: py_int_def strip_def lstrip_def rstrip_def)

lemma process_uid_db:
  "\<exists>now ln subj snip.
     st_db (snd (process_uid env ai_on u st)) = st_db st \<or>
     st_db (snd (process_uid env ai_on u st)) = mark_uid_processed u (st_db st) \<or>
     (\<not> is_uid_processed u (st_db st) \<and>
      st_db (snd (process_uid env ai_on u st)) =
        snd (add_task now ln subj snip (Some u) (st_db st)))"
proof (cases "is_uid_processed u (st_db st)")
  case True
  then show ?thesis by (simp add: process_uid_def raise_max_db)
next
  case False
  show ?thesis
  proof (cases "fetch (mbox env) u")
    case FetchRaises
    with False show ?thesis by (simp add: process_uid_def)
  next
    case FetchNotOK
    with False show ?thesis by (simp add: process_uid_def)
  next
    case (Fetched msg)
    show ?thesis
    proof (cases "classify_enabled_of env \<and> fst (classify_msg env msg) \<in> set (drop_set_in env)")
      case True
      with False Fetched show ?thesis
        by (simp add: process_uid_def Let_def raise_max_db set_error_fields)
    next
      case no_drop: False
      with False Fetched show ?thesis
        by (auto simp add: process_uid_def Let_def raise_max_db set_error_fields)
    qed
  qed
qed

lemma process_uid_seen:
  "max_seen_uid (snd (process_uid env ai_on u st)) = max_seen_uid st \<or>
   (\<exists>i. py_int u = Some i \<and>
        max_seen_uid (snd (process_uid env ai_on u st)) = max (max_seen_uid st) i \<and>
        u \<in> processed_uids (st_db (snd (process_uid env ai_on u st))))"
proof (cases "is_uid_processed u (st_db st)")
  case True
  then show ?thesis
    by (cases "py_int u")
       (simp_all add: process_uid_def raise_max_db raise_max_seen is_uid_processed_def)
next
  case False
  show ?thesis
  proof (cases "fetch (mbox env) u")
    case FetchRaises
    with False show ?thesis by (simp add: process_uid_def)
  next
    case FetchNotOK
    with False show ?thesis by (simp add: process_uid_def)
  next
    case (Fetched msg)
    show ?thesis
    proof (cases "classify_enabled_of env \<and> fst (classify_msg env msg) \<in> set (drop_set_in env)")
      case True
      with False Fetched show ?thesis
        by (cases "py_int u")
           (simp_all add: process_uid_def Let_def raise_max_db raise_max_seen set_error_fields
              mark_uid_processed_def)
    next
      case no_drop: False
      with False Fetched show ?thesis
        by (cases "py_int u")
           (auto simp add: process_uid_def Let_def raise_max_db raise_max_seen set_error_fields
              add_task_def insert_task_def mark_uid_processed_def is_uid_processed_def py_int_Nil)
    qed
  qed
qed

lemma process_uid_new_count: "new_count (snd (process_uid env ai_on u st)) = new_count st"
  by (auto simp: process_uid_def Let_def raise_max_fields set_error_fields
      split: fetch_result.splits)

lemma process_uids_invariant:
  assumes "P st" and "\<And>u s. u \<in> set us \<Longrightarrow> P s \<Longrightarrow> P (snd (process_uid env ai_on u s))"
  shows "P (snd (process_uids env ai_on us st))"
  using assms
proof (induction us arbitrary: st)
  case Nil
  then show ?case by simp
next
  case (Cons u us)
  have step: "P (snd (process_uid env ai_on u st))"
    using Cons.prems by simp
  show ?case
  proof (cases "process_uid env ai_on u st")
    case (Pair e st')
    show ?thesis
    proof (cases e)
      case None
      with Pair step Cons.prems(2) show ?thesis
        using Cons.IH [of st'] by simp
    next
      case (Some err)
      with Pair step show ?thesis by simp
    qed
  qed
qed

section \<open>Exactly-once ingestion\<close>

lemma uid_count_zero: "uid_count m d = 0 \<longleftrightarrow> (\<forall>t \<in> set (tasks d). email_uid t \<noteq> Some m)"
  by (auto simp: uid_count_def filter_empty_conv)

lemma store_inv_unprocessed:
  "store_inv d \<Longrightarrow> m \<notin> processed_uids d \<Longrightarrow> uid_count m d = 0"
  by (auto simp: store_inv_def uid_count_zero)

lemma mark_uid_processed_simps:
  "tasks (mark_uid_processed u d) = tasks d"
  "metadata (mark_uid_processed u d) = metadata d"
  "processed_uids (mark_uid_processed u d) = insert u (processed_uids d)"
  "uid_count m (mark_uid_processed u d) = uid_count m d"
  by (simp_all add: mark_uid_processed_def uid_count_def)

lemma store_inv_mark: "store_inv d \<Longrightarrow> store_inv (mark_uid_processed u d)"
  by (auto simp: store_inv_def mark_uid_processed_simps)

lemma add_task_processed:
  "u \<in> processed_uids d \<Longrightarrow> u \<noteq> [] \<Longrightarrow> add_task now ln subj snip (Some u) d = (False, d)"
  by (simp add: add_task_def is_uid_processed_def)

lemma add_task_fresh:
  "u \<notin> processed_uids d \<Longrightarrow> u \<noteq> [] \<Longrightarrow>
     add_task now ln subj snip (Some u) d =
       (True, mark_uid_processed u (insert_task now ln subj snip (Some u) d))"
  by (simp add: add_task_def is_uid_processed_def Let_def)

lemma insert_task_simps:
  "metadata (insert_task now ln subj snip uid d) = metadata d"
  "processed_uids (insert_task now ln subj snip uid d) = processed_uids d"
  "uid_count m (insert_task now ln subj snip uid d) =
     uid_count m d + (if uid = Some m then 1 else 0)"
  "set (tasks (insert_task now ln subj snip uid d)) =
     insert \<lparr>tid = Suc (seq d), email_uid = uid, subject = subj, snippet = snip,
             task_text = ln, created_at = now, completed_at = None, is_completed = 0,
             archived_at = None\<rparr> (set (tasks d))"
  by (simp_all add: insert_task_def uid_count_def)

lemma store_inv_add_task:
  assumes "store_inv d" "u \<noteq> []"
  shows "store_inv (snd (add_task now ln subj snip (Some u) d))"
proof (cases "u \<in> processed_uids d")
  case True
  with assms show ?thesis by (simp add: add_task_processed)
next
  case False
  have zero: "uid_count u d = 0"
    using store_inv_unprocessed [OF assms(1) False] .
  have "uid_count m (mark_uid_processed u (insert_task now ln subj snip (Some u) d)) \<le> 1" for m
    using assms(1) zero
    by (cases "m = u") (simp_all add: mark_uid_processed_simps insert_task_simps store_inv_def)
  moreover have "\<forall>t \<in> set (tasks (mark_uid_processed u (insert_task now ln subj snip (Some u) d))).
      \<forall>v. email_uid t = Some v \<longrightarrow>
        v \<noteq> [] \<and> v \<in> processed_uids (mark_uid_processed u (insert_task now ln subj snip (Some u) d))"
    using assms by (auto simp: mark_uid_processed_simps insert_task_simps store_inv_def)
  ultimately show ?thesis
    using False assms(2) by (simp add: add_task_fresh store_inv_def)
qed

lemma add_task_keeps:
  assumes "u \<noteq> []"
  shows "processed_uids d \<subseteq> processed_uids (snd (add_task now ln subj snip (Some u) d))"
    and "metadata (snd (add_task now ln subj snip (Some u) d)) = metadata d"
    and "m \<in> processed_uids d \<Longrightarrow>
           uid_count m (snd (add_task now ln subj snip (Some u) d)) = uid_count m d"
proof -
  show "processed_uids d \<subseteq> processed_uids (snd (add_task now ln subj snip (Some u) d))"
    using assms
    by (cases "u \<in> processed_uids d")
       (auto simp: add_task_processed add_task_fresh mark_uid_processed_simps insert_task_simps)
  show "metadata (snd (add_task now ln subj snip (Some u) d)) = metadata d"
    using assms
    by (cases "u \<in> processed_uids d")
       (auto simp: add_task_processed add_task_fresh mark_uid_processed_simps insert_task_simps)
  show "uid_count m (snd (add_task now ln subj snip (Some u) d)) = uid_count m d"
    if "m \<in> processed_uids d"
    using assms that
    by (cases "u \<in> processed_uids d")
       (auto simp: add_task_processed add_task_fresh mark_uid_processed_simps insert_task_simps)
qed

lemma process_uid_store_inv:
  assumes "store_inv (st_db st)" "u \<noteq> []"
  shows "store_inv (st_db (snd (process_uid env ai_on u st)))"
  using process_uid_db [of env ai_on u st] assms
  by (auto simp: store_inv_mark store_inv_add_task)

lemma process_uid_keeps:
  assumes "u \<noteq> []"
  shows "processed_uids (st_db st) \<subseteq> processed_uids (st_db (snd (process_uid env ai_on u st)))"
    and "metadata (st_db (snd (process_uid env ai_on u st))) = metadata (st_db st)"
    and "m \<in> processed_uids (st_db st) \<Longrightarrow>
           uid_count m (st_db (snd (process_uid env ai_on u st))) = uid_count m (st_db st)"
proof -
  obtain now ln subj snip where
    "st_db (snd (process_uid env ai_on u st)) = st_db st \<or>
     st_db (snd (process_uid env ai_on u st)) = mark_uid_processed u (st_db st) \<or>
     st_db (snd (process_uid env ai_on u st)) =
       snd (add_task now ln subj snip (Some u) (st_db st))"
    using process_uid_db [of env ai_on u st] by blast
  then consider
    (same) "st_db (snd (process_uid env ai_on u st)) = st_db st"
    | (marked) "st_db (snd (process_uid env ai_on u st)) = mark_uid_processed u (st_db st)"
    | (added) "st_db (snd (process_uid env ai_on u st)) =
        snd (add_task now ln subj snip (Some u) (st_db st))"
    by blast
  then have "processed_uids (st_db st) \<subseteq> processed_uids (st_db (snd (process_uid env ai_on u st))) \<and>
    metadata (st_db (snd (process_uid env ai_on u st))) = metadata (st_db st) \<and>
    (m \<in> processed_uids (st_db st) \<longrightarrow>
       uid_count m (st_db (snd (process_uid env ai_on u st))) = uid_count m (st_db st))"
  proof cases
    case same
    then show ?thesis by simp
  next
    case marked
    then show ?thesis by (auto simp: mark_uid_processed_simps)
  next
    case added
    then show ?thesis
      by (simp add: add_task_keeps [OF assms])
  qed
  then show
    "processed_uids (st_db st) \<subseteq> processed_uids (st_db (snd (process_uid env ai_on u st)))"
    "metadata (st_db (snd (process_uid env ai_on u st))) = metadata (st_db st)"
    "m \<in> processed_uids (st_db st) \<Longrightarrow>
       uid_count m (st_db (snd (process_uid env ai_on u st))) = uid_count m (st_db st)"
    by simp_all
qed

lemma sorted_by_int_parsed:
  "sorted_by_int uids = Some s \<Longrightarrow> \<forall>u \<in> set s. py_int u \<noteq> None \<and> u \<noteq> []"
proof -
  assume "sorted_by_int uids = Some s"
  then have "\<forall>u \<in> set s. py_int u \<noteq> None"
    by (auto simp: sorted_by_int_def split: if_splits)
  then show ?thesis
    using py_int_Nil by fastforce
qed

lemma ingest_cases:
  obtains (unchanged) "snd (ingest env last_uid uids d) = d"
  | (aborted) s ai_on c e st where
      "sorted_by_int uids = Some s" "cursor_of last_uid = Some c"
      "process_uids env ai_on s (start_state d c) = (Some e, st)"
      "ingest env last_uid uids d = (Raised e, st_db st)"
  | (completed) s ai_on c st where
      "sorted_by_int uids = Some s" "cursor_of last_uid = Some c"
      "process_uids env ai_on s (start_state d c) = (None, st)"
      "ingest env last_uid uids d =
         (logout env (Returned (final_status env st)),
          save_metadata ''last_uid'' (py_str (max_seen_uid st)) (st_db st))"
proof (cases "sorted_by_int uids")
  case None
  then have "snd (ingest env last_uid uids d) = d" by (simp add: ingest_def)
  then show ?thesis by (rule unchanged)
next
  case s: (Some s)
  show ?thesis
  proof (cases "getboolean (ai_enabled (cfg env)) True")
    case (Inl e)
    with s have "snd (ingest env last_uid uids d) = d" by (simp add: ingest_def)
    then show ?thesis by (rule unchanged)
  next
    case on: (Inr ai_on)
    show ?thesis
    proof (cases "cursor_of last_uid")
      case None
      with s on have "snd (ingest env last_uid uids d) = d" by (simp add: ingest_def)
      then show ?thesis by (rule unchanged)
    next
      case c: (Some c)
      show ?thesis
      proof (cases "process_uids env ai_on s (start_state d c)")
        case (Pair e st)
        show ?thesis
        proof (cases e)
          case None
          with Pair s on c show ?thesis
            by (intro completed [of s c ai_on st]) (simp_all add: ingest_def)
        next
          case (Some err)
          with Pair s on c show ?thesis
            by (intro aborted [of s c ai_on err st]) (simp_all add: ingest_def)
        qed
      qed
    qed
  qed
qed

lemma check_mail_unchanged_or_ingest:
  "snd (check_mail env d) = d \<or>
   (\<exists>uids. check_mail env d = ingest env (get_metadata ''last_uid'' ''0'' d) uids d)"
  by (auto simp: check_mail_def Let_def split: sum.splits option.splits search_result.splits)

lemma check_mail_cases:
  obtains (unchanged) "snd (check_mail env d) = d"
  | (aborted) s ai_on c e st where
      "\<forall>u \<in> set s. py_int u \<noteq> None \<and> u \<noteq> []" "read_cursor d = Some c"
      "process_uids env ai_on s (start_state d c) = (Some e, st)"
      "check_mail env d = (Raised e, st_db st)"
  | (completed) s ai_on c st where
      "\<forall>u \<in> set s. py_int u \<noteq> None \<and> u \<noteq> []" "read_cursor d = Some c"
      "process_uids env ai_on s (start_state d c) = (None, st)"
      "check_mail env d =
         (logout env (Returned (final_status env st)),
          save_metadata ''last_uid'' (py_str (max_seen_uid st)) (st_db st))"
proof -
  consider "snd (check_mail env d) = d"
    | uids where "check_mail env d = ingest env (get_metadata ''last_uid'' ''0'' d) uids d"
    using check_mail_unchanged_or_ingest [of env d] by blast
  then show ?thesis
  proof cases
    case 1
    then show ?thesis by (rule unchanged)
  next
    case (2 uids)
    show ?thesis
    proof (cases env "get_metadata ''last_uid'' ''0'' d" uids d rule: ingest_cases)
      case unchanged
      with 2 have "snd (check_mail env d) = d" by simp
      then show ?thesis by (rule that(1))
    next
      case (aborted s ai_on c e st)
      with 2 show ?thesis
        using sorted_by_int_parsed [of uids s]
        by (intro that(2) [of s c ai_on e st]) (simp_all add: read_cursor_def)
    next
      case (completed s ai_on c st)
      with 2 show ?thesis
        using sorted_by_int_parsed [of uids s]
        by (intro that(3) [of s c ai_on st]) (simp_all add: read_cursor_def)
    qed
  qed
qed

lemma process_uids_store_inv:
  assumes "store_inv (st_db st)" "\<forall>u \<in> set us. u \<noteq> []"
  shows "store_inv (st_db (snd (process_uids env ai_on us st)))"
  using assms
  by (intro process_uids_invariant [where P = "\<lambda>s. store_inv (st_db s)"])
     (simp_all add: process_uid_store_inv)

lemma process_uids_keeps:
  assumes "\<forall>u \<in> set us. u \<noteq> []"
  shows "processed_uids (st_db st) \<subseteq> processed_uids (st_db (snd (process_uids env ai_on us st)))"
    and "metadata (st_db (snd (process_uids env ai_on us st))) = metadata (st_db st)"
    and "m \<in> processed_uids (st_db st) \<Longrightarrow>
           uid_count m (st_db (snd (process_uids env ai_on us st))) = uid_count m (st_db st)"
proof -
  show "processed_uids (st_db st) \<subseteq> processed_uids (st_db (snd (process_uids env ai_on us st)))"
  proof (rule process_uids_invariant
      [where P = "\<lambda>s. processed_uids (st_db st) \<subseteq> processed_uids (st_db s)"])
    show "processed_uids (st_db st) \<subseteq> processed_uids (st_db st)" by simp
  next
    fix u and s :: cycle_state
    assume "u \<in> set us" "processed_uids (st_db st) \<subseteq> processed_uids (st_db s)"
    then show "processed_uids (st_db st) \<subseteq> processed_uids (st_db (snd (process_uid env ai_on u s)))"
      using process_uid_keeps(1) [of u s env ai_on] assms by blast
  qed
  show "metadata (st_db (snd (process_uids env ai_on us st))) = metadata (st_db st)"
    using assms
    by (intro process_uids_invariant [where P = "\<lambda>s. metadata (st_db s) = metadata (st_db st)"])
       (simp_all add: process_uid_keeps(2))
  show "uid_count m (st_db (snd (process_uids env ai_on us st))) = uid_count m (st_db st)"
    if m: "m \<in> processed_uids (st_db st)"
  proof -
    have "m \<in> processed_uids (st_db (snd (process_uids env ai_on us st))) \<and>
          uid_count m (st_db (snd (process_uids env ai_on us st))) = uid_count m (st_db st)"
    proof (rule process_uids_invariant
        [where P = "\<lambda>s. m \<in> processed_uids (st_db s) \<and> uid_count m (st_db s) = uid_count m (st_db st)"])
      show "m \<in> processed_uids (st_db st) \<and> uid_count m (st_db st) = uid_count m (st_db st)"
        using m by simp
    next
      fix u and s :: cycle_state
      assume u: "u \<in> set us"
        and s: "m \<in> processed_uids (st_db s) \<and> uid_count m (st_db s) = uid_count m (st_db st)"
      from u assms have ne: "u \<noteq> []" by simp
      show "m \<in> processed_uids (st_db (snd (process_uid env ai_on u s))) \<and>
            uid_count m (st_db (snd (process_uid env ai_on u s))) = uid_count m (st_db st)"
        using process_uid_keeps(1) [OF ne, of s env ai_on]
          process_uid_keeps(3) [OF ne, of m s env ai_on] s by auto
    qed
    then show ?thesis by simp
  qed
qed

lemma save_metadata_simps:
  "tasks (save_metadata k v d) = tasks d"
  "processed_uids (save_metadata k v d) = processed_uids d"
  "uid_count m (save_metadata k v d) = uid_count m d"
  "store_inv (save_metadata k v d) = store_inv d"
  by (simp_all add: save_metadata_def uid_count_def store_inv_def)

lemma start_state_simps:
  "st_db (start_state d c) = d" "max_seen_uid (start_state d c) = c"
  "new_count (start_state d c) = 0" "dropped (start_state d c) = 0"
  by (simp_all add: start_state_def)

lemma check_mail_store_inv: "store_inv d \<Longrightarrow> store_inv (snd (check_mail env d))"
proof (cases env d rule: check_mail_cases)
  case unchanged
  assume "store_inv d"
  with unchanged show ?thesis by simp
next
  case (aborted s ai_on c e st)
  assume "store_inv d"
  then have "store_inv (st_db (snd (process_uids env ai_on s (start_state d c))))"
    using aborted(1) by (intro process_uids_store_inv) (simp_all add: start_state_simps)
  with aborted show ?thesis by simp
next
  case (completed s ai_on c st)
  assume "store_inv d"
  then have "store_inv (st_db (snd (process_uids env ai_on s (start_state d c))))"
    using completed(1) by (intro process_uids_store_inv) (simp_all add: start_state_simps)
  with completed show ?thesis by (simp add: save_metadata_simps)
qed


lemma retouched_tasks:
  assumes "tasks d' = map f (tasks d)" "\<And>t. email_uid (f t) = email_uid t"
    "processed_uids d' = processed_uids d"
  shows "uid_count m d' = uid_count m d" and "store_inv d \<Longrightarrow> store_inv d'"
proof -
  show count: "uid_count m d' = uid_count m d" for m
    using assms(1,2) by (simp add: uid_count_def filter_map comp_def)
  show "store_inv d \<Longrightarrow> store_inv d'"
    using assms count by (auto simp: store_inv_def)
qed

lemma archive_ids_keeps:
  "uid_count m (archive_ids now ids d) = uid_count m d"
  "store_inv d \<Longrightarrow> store_inv (archive_ids now ids d)"
  "processed_uids (archive_ids now ids d) = processed_uids d"
proof -
  have shape: "tasks (archive_ids now ids d) = map (\<lambda>t. if tid t \<in> set ids then t\<lparr>archived_at := Some now\<rparr> else t) (tasks d)"
    by (simp add: archive_ids_def)
  have uid: "email_uid ((\<lambda>t. if tid t \<in> set ids then t\<lparr>archived_at := Some now\<rparr> else t) t) = email_uid t" for t
    by simp
  show proc: "processed_uids (archive_ids now ids d) = processed_uids d"
    by (simp add: archive_ids_def)
  show "uid_count m (archive_ids now ids d) = uid_count m d"
    using retouched_tasks(1) [OF shape uid proc] .
  show "store_inv d \<Longrightarrow> store_inv (archive_ids now ids d)"
    using retouched_tasks(2) [OF shape uid proc] .
qed

lemma mark_task_completed_keeps:
  "uid_count m (mark_task_completed now k done d) = uid_count m d"
  "store_inv d \<Longrightarrow> store_inv (mark_task_completed now k done d)"
  "processed_uids (mark_task_completed now k done d) = processed_uids d"
proof -
  have shape: "tasks (mark_task_completed now k done d) = map (\<lambda>t. if tid t = k
        then (if done then t\<lparr>is_completed := 1, completed_at := Some (Iso now)\<rparr>
              else t\<lparr>is_completed := 0, completed_at := None\<rparr>) else t) (tasks d)"
    by (simp add: mark_task_completed_def)
  have uid: "email_uid ((\<lambda>t. if tid t = k
        then (if done then t\<lparr>is_completed := 1, completed_at := Some (Iso now)\<rparr>
              else t\<lparr>is_completed := 0, completed_at := None\<rparr>) else t) t) = email_uid t" for t
    by simp
  show proc: "processed_uids (mark_task_completed now k done d) = processed_uids d"
    by (simp add: mark_task_completed_def)
  show "uid_count m (mark_task_completed now k done d) = uid_count m d"
    using retouched_tasks(1) [OF shape uid proc] .
  show "store_inv d \<Longrightarrow> store_inv (mark_task_completed now k done d)"
    using retouched_tasks(2) [OF shape uid proc] .
qed

lemma archive_all_completed_now_keeps:
  "uid_count m (snd (archive_all_completed_now now d)) = uid_count m d"
  "store_inv d \<Longrightarrow> store_inv (snd (archive_all_completed_now now d))"
  "processed_uids (snd (archive_all_completed_now now d)) = processed_uids d"
proof -
  have shape: "tasks (snd (archive_all_completed_now now d)) = map (\<lambda>t. if archived_at t = None \<and> is_completed t = 1
        then t\<lparr>archived_at := Some now\<rparr> else t) (tasks d)"
    by (simp add: archive_all_completed_now_def)
  have uid: "email_uid ((\<lambda>t. if archived_at t = None \<and> is_completed t = 1
        then t\<lparr>archived_at := Some now\<rparr> else t) t) = email_uid t" for t
    by simp
  show proc: "processed_uids (snd (archive_all_completed_now now d)) = processed_uids d"
    by (simp add: archive_all_completed_now_def)
  show "uid_count m (snd (archive_all_completed_now now d)) = uid_count m d"
    using retouched_tasks(1) [OF shape uid proc] .
  show "store_inv d \<Longrightarrow> store_inv (snd (archive_all_completed_now now d))"
    using retouched_tasks(2) [OF shape uid proc] .
qed

lemma list_active_tasks_store:
  "list_active_tasks now now2 h d = Inr (res, d') \<Longrightarrow> d' = d \<or> (\<exists>ids. d' = archive_ids now2 ids d)"
  by (auto simp: list_active_tasks_def Let_def split: option.splits if_splits)

lemma delete_task_keeps:
  "uid_count m (delete_task k d) \<le> uid_count m d"
  "store_inv d \<Longrightarrow> store_inv (delete_task k d)"
  "processed_uids (delete_task k d) = processed_uids d"
proof -
  show count: "uid_count m (delete_task k d) \<le> uid_count m d" for m
  proof -
    have "[t \<leftarrow> [t \<leftarrow> tasks d. tid t \<noteq> k]. email_uid t = Some m] =
          [t \<leftarrow> [t \<leftarrow> tasks d. email_uid t = Some m]. tid t \<noteq> k]"
      by (simp add: conj_commute)
    then show ?thesis
      by (simp add: uid_count_def delete_task_def del: filter_filter)
  qed
  show "processed_uids (delete_task k d) = processed_uids d"
    by (simp add: delete_task_def)
  show "store_inv d \<Longrightarrow> store_inv (delete_task k d)"
    unfolding store_inv_def
  proof (intro conjI allI)
    assume inv: "(\<forall>t\<in>set (tasks d). \<forall>u. email_uid t = Some u \<longrightarrow> u \<noteq> [] \<and> u \<in> processed_uids d) \<and>
      (\<forall>m. uid_count m d \<le> 1)"
    then show "\<forall>t\<in>set (tasks (delete_task k d)). \<forall>u. email_uid t = Some u \<longrightarrow>
        u \<noteq> [] \<and> u \<in> processed_uids (delete_task k d)"
      by (auto simp: delete_task_def)
    fix m
    from inv show "uid_count m (delete_task k d) \<le> 1"
      using count [of m] by (meson le_trans)
  qed
qed

lemma apply_op_store_inv: "store_inv d \<Longrightarrow> store_inv (apply_op x d)"
proof (cases x)
  case (CheckMail env)
  assume "store_inv d"
  with CheckMail show ?thesis by (simp add: check_mail_store_inv)
next
  case (ListActive now now2 h)
  assume inv: "store_inv d"
  show ?thesis
  proof (cases "list_active_tasks now now2 h d")
    case (Inl e)
    with ListActive inv show ?thesis by simp
  next
    case (Inr r)
    then have "snd r = d \<or> (\<exists>ids. snd r = archive_ids now2 ids d)"
      using list_active_tasks_store [of now now2 h d "fst r" "snd r"] by simp
    with ListActive Inr inv show ?thesis
      by (auto simp: archive_ids_keeps)
  qed
next
  case (MarkCompleted now k fin)
  assume "store_inv d"
  with MarkCompleted show ?thesis by (simp add: mark_task_completed_keeps)
next
  case (DeleteTask k)
  assume "store_inv d"
  with DeleteTask show ?thesis by (simp add: delete_task_keeps)
next
  case (ArchiveCompleted now)
  assume "store_inv d"
  with ArchiveCompleted show ?thesis by (simp add: archive_all_completed_now_keeps)
next
  case (SaveGeometry g)
  assume "store_inv d"
  with SaveGeometry show ?thesis by (simp add: save_metadata_simps)
qed


lemma run_store_inv: "store_inv d \<Longrightarrow> store_inv (run ops d)"
  by (induction ops arbitrary: d) (simp_all add: apply_op_store_inv)


lemma store_inv_ensure_db: "store_inv ensure_db"
  by (simp add: store_inv_def ensure_db_def uid_count_def)

lemma add_task_alone:
  "interleave [False, False, False] (start_call now ln subj snip uid, c2, d) =
     ((start_call now ln subj snip uid)\<lparr>c_pc := Returns (fst (add_task now ln subj snip uid d))\<rparr>,
      c2, snd (add_task now ln subj snip uid d))"
proof (cases uid)
  case None
  then show ?thesis
    by (simp add: add_task_step_def start_call_def add_task_def)
next
  case (Some u)
  show ?thesis
  proof (cases "u = []")
    case True
    with Some show ?thesis
      by (simp add: add_task_step_def start_call_def add_task_def)
  next
    case False
    show ?thesis
    proof (cases "is_uid_processed u d")
      case True
      with Some False show ?thesis
        by (simp add: add_task_step_def start_call_def add_task_def)
    next
      case unprocessed: False
      with Some False show ?thesis
        by (simp add: add_task_step_def start_call_def add_task_def Let_def)
    qed
  qed
qed

theorem exactly_once_ingestion_counterexample:
  "\<not> is_uid_processed ''5'' ensure_db \<and>
   uid_count ''5''
     (snd (snd (interleave [False, True, False, True, False, True]
                  (call_five, call_five, ensure_db)))) = 2 \<and>
   c_pc (fst (interleave [False, False, True, True, True] (call_five, call_five, ensure_db))) =
     AtMark \<and>
   uid_count ''5''
     (snd (snd (interleave [False, False, True, True, True]
                  (call_five, call_five, ensure_db)))) = 2 \<and>
   uid_count []
     (snd (add_task 1 ''note'' ''Hi'' ''hello'' (Some [])
            (snd (add_task 0 ''note'' ''Hi'' ''hello'' (Some []) ensure_db)))) = 2"
  by code_simp

text \<open>
  Claim C1, as amended. Take calls that do not overlap: a history in which every cycle and
  every call of the window runs alone, each \<open>add_task\<close> making its three statements without
  another call in between and to its end (\<open>add_task_alone\<close>). In every store that such a
  history, with any mailbox answers, served again or not, reaches from the store \<open>ensure_db\<close>
  creates, at most one task row carries a given message uid \<open>m\<close>. The mechanism is \<open>add_task\<close>:
  called with a non-empty uid, it inserts exactly when the uid is not in \<open>processed_uids\<close>,
  leaves the store alone otherwise, and marks the uid when it inserts. Two calls that
  overlap, a call cut off between its \<open>INSERT\<close> and its mark, and the empty uid are what the
  statement leaves out.
\<close>

theorem exactly_once_ingestion:
  "uid_count m (run ops ensure_db) \<le> 1 \<and>
   (m \<noteq> [] \<longrightarrow>
      (fst (add_task now ln subj snip (Some m) d) \<longleftrightarrow> m \<notin> processed_uids d) \<and>
      (m \<in> processed_uids d \<longrightarrow> snd (add_task now ln subj snip (Some m) d) = d) \<and>
      (m \<notin> processed_uids d \<longrightarrow>
         uid_count m (snd (add_task now ln subj snip (Some m) d)) = uid_count m d + 1) \<and>
      m \<in> processed_uids (snd (add_task now ln subj snip (Some m) d)))"
proof -
  have "store_inv (run ops ensure_db)"
    using run_store_inv [OF store_inv_ensure_db] .
  then have "uid_count m (run ops ensure_db) \<le> 1"
    by (simp add: store_inv_def)
  moreover have "m \<noteq> [] \<longrightarrow>
      (fst (add_task now ln subj snip (Some m) d) \<longleftrightarrow> m \<notin> processed_uids d) \<and>
      (m \<in> processed_uids d \<longrightarrow> snd (add_task now ln subj snip (Some m) d) = d) \<and>
      (m \<notin> processed_uids d \<longrightarrow>
         uid_count m (snd (add_task now ln subj snip (Some m) d)) = uid_count m d + 1) \<and>
      m \<in> processed_uids (snd (add_task now ln subj snip (Some m) d))"
    by (cases "m \<in> processed_uids d")
       (simp_all add: add_task_processed add_task_fresh mark_uid_processed_simps insert_task_simps)
  ultimately show ?thesis by simp
qed

theorem exactly_once_ingestion_witness:
  "map email_uid (tasks (run [CheckMail env_one, CheckMail env_one] ensure_db)) = [Some ''5''] \<and>
   uid_count ''5'' (run [CheckMail env_one, CheckMail env_one] ensure_db) \<le> 1 \<and>
   ''5'' \<in> processed_uids (snd (add_task 0 ''note'' ''Hi'' ''hello'' (Some ''5'') ensure_db)) \<and>
   fst (add_task 0 ''note'' ''Hi'' ''hello'' (Some ''5'') ensure_db)"
proof -
  have pre: "''5'' \<noteq> []" "''5'' \<notin> processed_uids ensure_db"
    by code_simp+
  have rows: "map email_uid (tasks (run [CheckMail env_one, CheckMail env_one] ensure_db)) = [Some ''5'']"
    by code_simp
  show ?thesis
    using pre rows
      exactly_once_ingestion [of "''5''" "[CheckMail env_one, CheckMail env_one]"
        0 "''note''" "''Hi''" "''hello''" ensure_db]
    by blast
qed



section \<open>Decimal round trip\<close>

lemma digit_char_props:
  "k < 10 \<Longrightarrow> isdigit (digit_char k)"
  "k < 10 \<Longrightarrow> digit_val (digit_char k) = k"
  "k < 10 \<Longrightarrow> \<not> isspace (digit_char k)"
  "k < 10 \<Longrightarrow> digit_char k \<noteq> CHR ''-''"
  "k < 10 \<Longrightarrow> digit_char k \<noteq> CHR ''+''"
proof -
  assume k: "k < 10"
  then have code: "(of_char (digit_char k) :: nat) = 48 + k"
    by (simp add: digit_char_def)
  show "isdigit (digit_char k)" using k by (simp add: isdigit_def code)
  show "digit_val (digit_char k) = k" by (simp add: digit_val_def code)
  show "\<not> isspace (digit_char k)" using k by (simp add: isspace_def code)
  show "digit_char k \<noteq> CHR ''-''"
  proof
    assume "digit_char k = CHR ''-''"
    then have "(of_char (digit_char k) :: nat) = of_char (CHR ''-'')" by simp
    with code show False by simp
  qed
  show "digit_char k \<noteq> CHR ''+''"
  proof
    assume "digit_char k = CHR ''+''"
    then have "(of_char (digit_char k) :: nat) = of_char (CHR ''+'')" by simp
    with code show False by simp
  qed
qed

lemma parse_digits_dec:
  "\<forall>c \<in> set s. isdigit c \<Longrightarrow> parse_digits acc s = Some (dec acc s)"
  by (induction s arbitrary: acc) (simp_all add: dec_def)

lemma str_nat_digits: "\<forall>c \<in> set (str_nat n). \<exists>k < 10. c = digit_char k"
proof (induction n rule: str_nat.induct)
  case (1 n)
  show ?case
  proof (cases "n < 10")
    case True
    then show ?thesis by (subst str_nat.simps) auto
  next
    case False
    have "n mod 10 < 10" by simp
    from False 1 have "\<forall>c \<in> set (str_nat (n div 10)). \<exists>k < 10. c = digit_char k"
      by simp
    moreover have "\<exists>k < 10. digit_char (n mod 10) = digit_char k"
      by (rule exI [of _ "n mod 10"]) simp
    ultimately show ?thesis
      using False by (subst str_nat.simps) auto
  qed
qed

lemma str_nat_dec: "dec 0 (str_nat n) = n"
proof (induction n rule: str_nat.induct)
  case (1 n)
  show ?case
  proof (cases "n < 10")
    case True
    then show ?thesis
      by (subst str_nat.simps) (simp add: dec_def digit_char_props)
  next
    case False
    with 1 have "dec 0 (str_nat (n div 10)) = n div 10" by simp
    with False show ?thesis
      by (subst str_nat.simps) (simp add: dec_def digit_char_props)
  qed
qed

lemma str_nat_not_Nil: "str_nat n \<noteq> []"
  by (subst str_nat.simps) simp

lemma parse_nat_str_nat: "parse_nat (str_nat n) = Some n"
proof (cases "str_nat n")
  case Nil
  then show ?thesis using str_nat_not_Nil by simp
next
  case (Cons c cs)
  have digits: "\<forall>x \<in> set (c # cs). isdigit x"
    using str_nat_digits [of n] Cons by (auto simp: digit_char_props)
  have "dec 0 (c # cs) = n"
    using str_nat_dec [of n] Cons by simp
  then have "dec (digit_val c) cs = n"
    by (simp add: dec_def)
  with digits Cons show ?thesis
    by (simp add: parse_nat_def parse_digits_dec)
qed

lemma strip_no_space: "\<forall>c \<in> set s. \<not> isspace c \<Longrightarrow> strip s = s"
proof -
  assume a: "\<forall>c \<in> set s. \<not> isspace c"
  then have "dropWhile isspace s = s"
    by (cases s) simp_all
  moreover from a have "dropWhile isspace (rev s) = rev s"
    by (cases "rev s") (simp, metis dropWhile.simps(2) list.set_intros(1) set_rev)
  ultimately show ?thesis
    by (simp add: strip_def lstrip_def rstrip_def)
qed

lemma py_str_no_space: "\<forall>c \<in> set (py_str i). \<not> isspace c"
proof -
  have "\<not> isspace (CHR ''-'')" by (simp add: isspace_def)
  moreover have "\<forall>c \<in> set (str_nat n). \<not> isspace c" for n
    using str_nat_digits [of n] by (auto simp: digit_char_props)
  ultimately show ?thesis by (simp add: py_str_def)
qed

lemma py_str_not_Nil: "py_str i \<noteq> []"
  by (simp add: py_str_def str_nat_not_Nil)

lemma py_int_py_str: "py_int (py_str i) = Some i"
proof (cases "i < 0")
  case True
  then have "py_str i = CHR ''-'' # str_nat (nat (- i))"
    by (simp add: py_str_def)
  with True show ?thesis
    using strip_no_space [OF py_str_no_space, of i]
    by (simp add: py_int_def parse_nat_str_nat)
next
  case False
  obtain c cs where s: "str_nat (nat i) = c # cs"
    using str_nat_not_Nil [of "nat i"] by (cases "str_nat (nat i)") auto
  then have "\<exists>k < 10. c = digit_char k"
    using str_nat_digits [of "nat i"] by simp
  then have c: "c \<noteq> CHR ''-''" "c \<noteq> CHR ''+''"
    by (auto simp: digit_char_props)
  from False have "py_str i = c # cs"
    by (simp add: py_str_def s)
  with False c show ?thesis
    using strip_no_space [OF py_str_no_space, of i] parse_nat_str_nat [of "nat i"]
    by (simp add: py_int_def s)
qed

lemma cursor_of_py_str: "cursor_of (py_str i) = Some i"
  by (simp add: cursor_of_def py_str_not_Nil py_int_py_str)

section \<open>The cursor\<close>

lemma read_cursor_metadata: "metadata d' = metadata d \<Longrightarrow> read_cursor d' = read_cursor d"
  by (simp add: read_cursor_def get_metadata_def)

lemma read_cursor_saved: "read_cursor (save_metadata ''last_uid'' (py_str i) d) = Some i"
  by (simp add: read_cursor_def get_metadata_def save_metadata_def update_conv' cursor_of_py_str)

lemma read_cursor_geometry:
  "read_cursor (save_metadata ''window_geometry'' g d) = read_cursor d"
  by (simp add: read_cursor_def get_metadata_def save_metadata_def update_conv')

lemma process_uids_seen_mono:
  "max_seen_uid st \<le> max_seen_uid (snd (process_uids env ai_on us st))"
proof (rule process_uids_invariant [where P = "\<lambda>s. max_seen_uid st \<le> max_seen_uid s"])
  show "max_seen_uid st \<le> max_seen_uid st" by simp
next
  fix u and s :: cycle_state
  assume "max_seen_uid st \<le> max_seen_uid s"
  then show "max_seen_uid st \<le> max_seen_uid (snd (process_uid env ai_on u s))"
    using process_uid_seen [of env ai_on u s] by auto
qed

lemma process_uids_seen_recorded:
  assumes "\<forall>u \<in> set us. u \<noteq> []"
  shows "max_seen_uid (snd (process_uids env ai_on us st)) = max_seen_uid st \<or>
         (\<exists>u \<in> set us. u \<in> processed_uids (st_db (snd (process_uids env ai_on us st))) \<and>
            py_int u = Some (max_seen_uid (snd (process_uids env ai_on us st))))"
  using assms
proof (induction us arbitrary: st)
  case Nil
  then show ?case by simp
next
  case (Cons u us)
  obtain e st1 where step: "process_uid env ai_on u st = (e, st1)"
    by (cases "process_uid env ai_on u st") auto
  have first: "max_seen_uid st1 = max_seen_uid st \<or>
      (u \<in> processed_uids (st_db st1) \<and> py_int u = Some (max_seen_uid st1))"
    using process_uid_seen [of env ai_on u st] step by (auto simp: max_def split: if_splits)
  show ?case
  proof (cases e)
    case (Some err)
    with step first show ?thesis by auto
  next
    case None
    from Cons.prems have ne: "\<forall>v \<in> set us. v \<noteq> []" by simp
    let ?st2 = "snd (process_uids env ai_on us st1)"
    have rest: "max_seen_uid ?st2 = max_seen_uid st1 \<or>
        (\<exists>v \<in> set us. v \<in> processed_uids (st_db ?st2) \<and> py_int v = Some (max_seen_uid ?st2))"
      using Cons.IH [OF ne, of st1] .
    have grow: "processed_uids (st_db st1) \<subseteq> processed_uids (st_db ?st2)"
      using process_uids_keeps(1) [OF ne, of st1 env ai_on] .
    have whole: "process_uids env ai_on (u # us) st = process_uids env ai_on us st1"
      using step None by simp
    from first rest grow show ?thesis
      unfolding whole by auto
  qed
qed

lemma check_mail_cursor:
  assumes "read_cursor d = Some c"
  shows "\<exists>c'. read_cursor (snd (check_mail env d)) = Some c' \<and> c \<le> c' \<and>
           (c' = c \<or> (\<exists>u \<in> processed_uids (snd (check_mail env d)). py_int u = Some c'))"
proof (cases env d rule: check_mail_cases)
  case unchanged
  with assms show ?thesis by simp
next
  case (aborted s ai_on c0 e st)
  then have ne: "\<forall>u \<in> set s. u \<noteq> []" by simp
  have "metadata (st_db st) = metadata d"
    using process_uids_keeps(2) [OF ne, of env ai_on "start_state d c0"] aborted(3)
    by (simp add: start_state_simps)
  then have "read_cursor (st_db st) = read_cursor d"
    by (rule read_cursor_metadata)
  with assms have "read_cursor (st_db st) = Some c"
    by simp
  with aborted(4) show ?thesis by simp
next
  case (completed s ai_on c0 st)
  then have ne: "\<forall>u \<in> set s. u \<noteq> []" by simp
  from completed(2) assms have c0: "c0 = c" by simp
  have mono: "c \<le> max_seen_uid st"
    using process_uids_seen_mono [of "start_state d c0" env ai_on s] completed(3) c0
    by (simp add: start_state_simps)
  have origin: "max_seen_uid st = c \<or>
      (\<exists>u \<in> processed_uids (st_db st). py_int u = Some (max_seen_uid st))"
    using process_uids_seen_recorded [OF ne, of env ai_on "start_state d c0"] completed(3) c0
    by (auto simp: start_state_simps)
  show ?thesis
    using mono origin completed(4)
    by (simp add: read_cursor_saved save_metadata_simps)
qed

lemma apply_op_cursor:
  assumes "read_cursor d = Some c"
  shows "\<exists>c'. read_cursor (apply_op x d) = Some c' \<and> c \<le> c'"
proof (cases x)
  case (CheckMail env)
  with check_mail_cursor [OF assms, of env] show ?thesis by auto
next
  case (ListActive now now2 h)
  show ?thesis
  proof (cases "list_active_tasks now now2 h d")
    case (Inl e)
    with ListActive assms show ?thesis by simp
  next
    case (Inr r)
    then have "snd r = d \<or> (\<exists>ids. snd r = archive_ids now2 ids d)"
      using list_active_tasks_store [of now now2 h d "fst r" "snd r"] by simp
    then have "metadata (snd r) = metadata d"
      by (auto simp: archive_ids_def)
    then have "read_cursor (snd r) = read_cursor d"
      by (rule read_cursor_metadata)
    with ListActive Inr assms show ?thesis by simp
  qed
next
  case (MarkCompleted now k fin)
  have "read_cursor (mark_task_completed now k fin d) = read_cursor d"
    by (rule read_cursor_metadata) (simp add: mark_task_completed_def)
  with MarkCompleted assms show ?thesis by simp
next
  case (DeleteTask k)
  have "read_cursor (delete_task k d) = read_cursor d"
    by (rule read_cursor_metadata) (simp add: delete_task_def)
  with DeleteTask assms show ?thesis by simp
next
  case (ArchiveCompleted now)
  have "read_cursor (snd (archive_all_completed_now now d)) = read_cursor d"
    by (rule read_cursor_metadata) (simp add: archive_all_completed_now_def)
  with ArchiveCompleted assms show ?thesis by simp
next
  case (SaveGeometry g)
  with assms show ?thesis by (simp add: read_cursor_geometry)
qed

text \<open>
  Claim C2. Over every history of calls, the persisted cursor (the value \<open>check_mail\<close> reads
  from the key \<open>last_uid\<close>) never decreases: a cycle starts its running maximum at the
  stored value, only raises it with \<open>max\<close>, and writes it back; no other call writes the key.
\<close>

theorem cursor_monotone:
  "read_cursor d = Some c \<Longrightarrow> \<exists>c'. read_cursor (run ops d) = Some c' \<and> c \<le> c'"
proof (induction ops arbitrary: d c)
  case Nil
  then show ?case by simp
next
  case (Cons x ops)
  from apply_op_cursor [OF Cons.prems, of x]
  obtain c1 where c1: "read_cursor (apply_op x d) = Some c1" "c \<le> c1"
    by blast
  from Cons.IH [OF c1(1)]
  obtain c2 where "read_cursor (run ops (apply_op x d)) = Some c2" "c1 \<le> c2"
    by blast
  with c1(2) show ?case by auto
qed

theorem cursor_monotone_witness:
  "read_cursor ensure_db = Some 0 \<and>
   read_cursor (run [CheckMail env_gap] ensure_db) = Some 7 \<and>
   read_cursor (run [CheckMail env_gap, CheckMail env_one] ensure_db) = Some 7 \<and>
   (\<exists>c'. read_cursor (run [CheckMail env_gap, CheckMail env_one] ensure_db) = Some c' \<and> 0 \<le> c')"
proof -
  have start: "read_cursor ensure_db = Some 0"
    by code_simp
  have vals: "read_cursor (run [CheckMail env_gap] ensure_db) = Some 7"
    "read_cursor (run [CheckMail env_gap, CheckMail env_one] ensure_db) = Some 7"
    by code_simp+
  show ?thesis
    using start vals cursor_monotone [OF start, of "[CheckMail env_gap, CheckMail env_one]"]
    by (intro conjI)
qed

theorem cursor_past_unrecorded_counterexample:
  "fetch (mbox env_gap) ''5'' = FetchNotOK \<and>
   fst (check_mail env_gap ensure_db) = Returned (Some ''AI OFF | +0 / dropped 0'') \<and>
   ''5'' \<notin> processed_uids (snd (check_mail env_gap ensure_db)) \<and>
   uid_count ''5'' (snd (check_mail env_gap ensure_db)) = 0 \<and>
   py_int ''5'' = Some 5 \<and>
   read_cursor (snd (check_mail env_gap ensure_db)) = Some 7 \<and>
   \<not> (7 < (5 :: int)) \<and>
   base_query (get_metadata ''last_uid'' ''0'' (snd (check_mail env_gap ensure_db))) =
     Some ''(UID 8:*)''"
  by code_simp

text \<open>
  Claim C3, as amended. A cycle moves the persisted cursor only to the uid of a message whose
  outcome is recorded: after \<open>check_mail\<close> the cursor is the one before, or the number of a
  uid that is then in \<open>processed_uids\<close>. A uid whose fetch failed is not added to
  \<open>processed_uids\<close>, gets no task and does not raise the running maximum: the pass leaves the
  state of the loop as it was. (The cursor may still pass such a uid when a larger uid of
  the same cycle is recorded.)
\<close>

theorem cursor_advances_to_recorded:
  "(read_cursor d = Some c \<longrightarrow>
      (\<exists>c'. read_cursor (snd (check_mail env d)) = Some c' \<and>
            (c' = c \<or> (\<exists>u \<in> processed_uids (snd (check_mail env d)). py_int u = Some c')))) \<and>
   (\<not> is_uid_processed uid_s (st_db st) \<and> fetch (mbox env) uid_s = FetchNotOK \<longrightarrow>
      process_uid env ai_on uid_s st = (None, st))"
proof -
  have "process_uid env ai_on uid_s st = (None, st)"
    if "\<not> is_uid_processed uid_s (st_db st) \<and> fetch (mbox env) uid_s = FetchNotOK"
    using that by (simp add: process_uid_def)
  moreover have "\<exists>c'. read_cursor (snd (check_mail env d)) = Some c' \<and>
      (c' = c \<or> (\<exists>u \<in> processed_uids (snd (check_mail env d)). py_int u = Some c'))"
    if "read_cursor d = Some c"
    using check_mail_cursor [OF that, of env] by blast
  ultimately show ?thesis by blast
qed

theorem cursor_advances_to_recorded_witness:
  "read_cursor ensure_db = Some 0 \<and>
   read_cursor (snd (check_mail env_gap ensure_db)) = Some 7 \<and>
   ''7'' \<in> processed_uids (snd (check_mail env_gap ensure_db)) \<and>
   py_int ''7'' = Some 7 \<and>
   (\<exists>c'. read_cursor (snd (check_mail env_gap ensure_db)) = Some c' \<and>
      (c' = 0 \<or> (\<exists>u \<in> processed_uids (snd (check_mail env_gap ensure_db)). py_int u = Some c'))) \<and>
   process_uid env_gap False ''5'' (start_state ensure_db 0) = (None, start_state ensure_db 0)"
proof -
  have start: "read_cursor ensure_db = Some 0"
    by code_simp
  have vals: "read_cursor (snd (check_mail env_gap ensure_db)) = Some 7"
    "''7'' \<in> processed_uids (snd (check_mail env_gap ensure_db))"
    "py_int ''7'' = Some 7"
    by code_simp+
  have failed: "\<not> is_uid_processed ''5'' (st_db (start_state ensure_db 0)) \<and>
      fetch (mbox env_gap) ''5'' = FetchNotOK"
    by code_simp
  note inst = cursor_advances_to_recorded [of ensure_db 0 env_gap "''5''" "start_state ensure_db 0" False]
  have a: "\<exists>c'. read_cursor (snd (check_mail env_gap ensure_db)) = Some c' \<and>
      (c' = 0 \<or> (\<exists>u \<in> processed_uids (snd (check_mail env_gap ensure_db)). py_int u = Some c'))"
    using inst [THEN conjunct1, THEN mp, OF start] .
  have b: "process_uid env_gap False ''5'' (start_state ensure_db 0) = (None, start_state ensure_db 0)"
    using inst [THEN conjunct2, THEN mp, OF failed] .
  from start vals a b show ?thesis by (intro conjI)
qed

section \<open>Statuses of a cycle\<close>

lemma raise_max_more:
  "last_ai_mode (snd (raise_max u st)) = last_ai_mode st"
  "dropped (snd (raise_max u st)) = dropped st"
  by (simp_all add: raise_max_def split: option.splits)

lemma process_uid_counters:
  "dropped (snd (process_uid env ai_on u st)) =
     dropped st + (if u \<notin> processed_uids (st_db st) \<and> is_dropped env u then 1 else 0) \<and>
   last_ai_mode (snd (process_uid env ai_on u st)) =
     (if u \<notin> processed_uids (st_db st) \<and> is_summarised env u
      then Some (summary_mode env ai_on u) else last_ai_mode st)"
proof (cases "is_uid_processed u (st_db st)")
  case True
  then show ?thesis
    by (simp add: process_uid_def raise_max_more is_uid_processed_def)
next
  case False
  then have unproc: "u \<notin> processed_uids (st_db st)"
    by (simp add: is_uid_processed_def)
  show ?thesis
  proof (cases "fetch (mbox env) u")
    case FetchRaises
    with False unproc show ?thesis
      by (simp add: process_uid_def is_dropped_def is_summarised_def)
  next
    case FetchNotOK
    with False unproc show ?thesis
      by (simp add: process_uid_def is_dropped_def is_summarised_def)
  next
    case (Fetched msg)
    show ?thesis
    proof (cases "classify_enabled_of env \<and> fst (classify_msg env msg) \<in> set (drop_set_in env)")
      case True
      with False unproc Fetched show ?thesis
        by (simp add: process_uid_def Let_def raise_max_more set_error_fields
            is_dropped_def is_summarised_def)
    next
      case no_drop: False
      with False unproc Fetched show ?thesis
        by (auto simp add: process_uid_def Let_def raise_max_more set_error_fields
            is_dropped_def is_summarised_def summary_mode_def)
    qed
  qed
qed

lemma process_uid_marks:
  "processed_uids (st_db (snd (process_uid env ai_on u st))) \<subseteq> insert u (processed_uids (st_db st))"
  using process_uid_db [of env ai_on u st]
  by (auto simp: mark_uid_processed_simps add_task_def insert_task_def mark_uid_processed_def
      is_uid_processed_def Let_def split: if_splits)

lemma process_uids_counters:
  assumes "distinct us" "\<forall>u \<in> set us. u \<noteq> []"
    and "process_uids env ai_on us st0 = (None, st)"
  shows "dropped st =
           dropped st0 + length [u \<leftarrow> us. u \<notin> processed_uids (st_db st0) \<and> is_dropped env u] \<and>
         last_ai_mode st =
           (case [u \<leftarrow> us. u \<notin> processed_uids (st_db st0) \<and> is_summarised env u] of
              [] \<Rightarrow> last_ai_mode st0
            | x # xs \<Rightarrow> Some (summary_mode env ai_on (last (x # xs))))"
  using assms
proof (induction us arbitrary: st0)
  case Nil
  then show ?case by simp
next
  case (Cons u us)
  obtain e st1 where step: "process_uid env ai_on u st0 = (e, st1)"
    by (cases "process_uid env ai_on u st0") auto
  with Cons.prems(3) have e: "e = None" and rest: "process_uids env ai_on us st1 = (None, st)"
    by (cases e; simp)+
  from Cons.prems have ne: "u \<noteq> []" and d: "distinct us" "u \<notin> set us"
    and nes: "\<forall>v \<in> set us. v \<noteq> []"
    by simp_all
  have same: "v \<notin> processed_uids (st_db st1) \<longleftrightarrow> v \<notin> processed_uids (st_db st0)"
    if "v \<in> set us" for v
  proof -
    from that d have "v \<noteq> u" by auto
    then show ?thesis
      using process_uid_marks [of env ai_on u st0] process_uid_keeps(1) [OF ne, of st0 env ai_on] step
      by auto
  qed
  have f1: "[v \<leftarrow> us. v \<notin> processed_uids (st_db st1) \<and> is_dropped env v] =
            [v \<leftarrow> us. v \<notin> processed_uids (st_db st0) \<and> is_dropped env v]"
    using same by (intro filter_cong) auto
  have f2: "[v \<leftarrow> us. v \<notin> processed_uids (st_db st1) \<and> is_summarised env v] =
            [v \<leftarrow> us. v \<notin> processed_uids (st_db st0) \<and> is_summarised env v]"
    using same by (intro filter_cong) auto
  note ih = Cons.IH [OF d(1) nes rest, unfolded f1 f2]
  note first = process_uid_counters [of env ai_on u st0, unfolded step snd_conv]
  show ?case
  proof (cases "[v \<leftarrow> us. v \<notin> processed_uids (st_db st0) \<and> is_summarised env v]")
    case Nil
    with ih first show ?thesis by simp
  next
    case (Cons y ys)
    with ih first show ?thesis by simp
  qed
qed

lemma summarize_msg_mode: "fst (snd (summarize_msg env ai_on msg)) \<noteq> []"
  by (auto simp: summarize_msg_def llm_summary_def Let_def
      split: chat_result.splits option.splits)

lemma summary_mode_not_Nil: "is_summarised env u \<Longrightarrow> summary_mode env ai_on u \<noteq> []"
  by (auto simp: is_summarised_def summary_mode_def summarize_msg_mode split: fetch_result.splits)

lemma sorted_by_int_distinct: "sorted_by_int uids = Some us \<Longrightarrow> distinct uids \<Longrightarrow> distinct us"
  by (auto simp: sorted_by_int_def split: if_splits)

lemma ingest_status:
  assumes "distinct uids" "fst (ingest env last_uid uids d) = Returned s"
  shows "\<exists>us ai_on. sorted_by_int uids = Some us \<and>
           getboolean (ai_enabled (cfg env)) True = Inr ai_on \<and>
           (if has_callback env \<and> [u \<leftarrow> us. u \<notin> processed_uids d \<and> is_summarised env u] \<noteq> []
            then \<exists>n. s = Some (''AI '' @
                   summary_mode env ai_on
                     (last [u \<leftarrow> us. u \<notin> processed_uids d \<and> is_summarised env u]) @
                   '' | +'' @ n @ '' / dropped '' @
                   py_str (int (length [u \<leftarrow> us. u \<notin> processed_uids d \<and> is_dropped env u])))
            else s = None)"
proof -
  from assms(2) obtain us ai_on c st where
    us: "sorted_by_int uids = Some us" and on: "getboolean (ai_enabled (cfg env)) True = Inr ai_on"
    and loop: "process_uids env ai_on us (start_state d c) = (None, st)"
    and s: "s = final_status env st" and lo: "\<not> logout_raises (mbox env)"
    by (auto simp: ingest_def logout_def
        split: option.splits sum.splits prod.splits if_splits)
  have ne: "\<forall>u \<in> set us. u \<noteq> []"
    using sorted_by_int_parsed [OF us] by simp
  have dist: "distinct us"
    using sorted_by_int_distinct [OF us assms(1)] .
  let ?xs = "[u \<leftarrow> us. u \<notin> processed_uids d \<and> is_summarised env u]"
  note cnt = process_uids_counters [OF dist ne loop, unfolded start_state_simps]
  have dr: "dropped st = length [u \<leftarrow> us. u \<notin> processed_uids d \<and> is_dropped env u]"
    using cnt by (simp add: start_state_def)
  have "(if has_callback env \<and> ?xs \<noteq> []
         then \<exists>n. s = Some (''AI '' @ summary_mode env ai_on (last ?xs) @ '' | +'' @ n @
                '' / dropped '' @
                py_str (int (length [u \<leftarrow> us. u \<notin> processed_uids d \<and> is_dropped env u])))
         else s = None)"
  proof (cases ?xs)
    case Nil
    with cnt have "last_ai_mode st = None"
      by (simp add: start_state_def)
    with Nil s show ?thesis by (simp add: final_status_def)
  next
    case (Cons y ys)
    with cnt have m: "last_ai_mode st = Some (summary_mode env ai_on (last ?xs))"
      by simp
    have "last ?xs \<in> set ?xs"
      using Cons by (intro last_in_set) simp
    then have "is_summarised env (last ?xs)"
      by simp
    then have "summary_mode env ai_on (last ?xs) \<noteq> []"
      by (rule summary_mode_not_Nil)
    with m s dr Cons show ?thesis
      by (auto simp: final_status_def)
  qed
  with us on show ?thesis by blast
qed

theorem check_mail_no_new_counterexample:
  "search (mbox env_no_new) ''(UID 1:*)'' = SearchResult ''OK'' [] \<and>
   fst (check_mail env_no_new ensure_db) = Returned (Some ''IMAP OK (no new)'') \<and>
   fst (check_mail env_no_new ensure_db) \<noteq> Returned (Some ''OK (no new)'')"
  by code_simp

text \<open>
  Claim C8, as amended. When the cycle gets as far as the search (option \<open>ssl\<close> readable,
  credentials set, connection made, stored cursor readable) and the search answers \<open>OK\<close>
  with no uid, \<open>check_mail\<close> leaves the store as it is (no task, no cursor written) and,
  unless \<open>logout\<close> raises, reports the status \<open>IMAP OK (no new)\<close> to the callback if one is
  set.
\<close>

theorem check_mail_no_new:
  assumes "getboolean (imap_ssl (cfg env)) True = Inr use_ssl"
    and "cfg_get (imap_username (cfg env)) [] \<noteq> []"
    and "cfg_get (imap_password (cfg env)) [] \<noteq> []"
    and "connects (mbox env)"
    and "base_query (get_metadata ''last_uid'' ''0'' d) = Some base_q"
    and "search (mbox env)
           (search_query (strip (cfg_get (imap_cutoff_date (cfg env)) [])) base_q) =
         SearchResult ''OK'' toks"
    and "[u \<leftarrow> toks. u \<noteq> []] = []"
  shows "snd (check_mail env d) = d \<and>
         fst (check_mail env d) =
           (if logout_raises (mbox env) then Raised IMAPError
            else Returned (if has_callback env then Some ''IMAP OK (no new)'' else None))"
  using assms by (simp add: check_mail_def Let_def logout_def status_def)

theorem check_mail_no_new_witness:
  "check_mail env_no_new ensure_db = (Returned (Some ''IMAP OK (no new)''), ensure_db)"
proof -
  have pre: "getboolean (imap_ssl (cfg env_no_new)) True = Inr True"
    "cfg_get (imap_username (cfg env_no_new)) [] \<noteq> []"
    "cfg_get (imap_password (cfg env_no_new)) [] \<noteq> []"
    "connects (mbox env_no_new)"
    "base_query (get_metadata ''last_uid'' ''0'' ensure_db) = Some ''(UID 1:*)''"
    "search (mbox env_no_new)
       (search_query (strip (cfg_get (imap_cutoff_date (cfg env_no_new)) [])) ''(UID 1:*)'') =
     SearchResult ''OK'' []"
    "[u \<leftarrow> []. u \<noteq> []] = ([] :: string list)"
    by code_simp+
  have env: "\<not> logout_raises (mbox env_no_new)" "has_callback env_no_new"
    by code_simp+
  show ?thesis
    using check_mail_no_new [OF pre] env by (simp add: prod_eq_iff)
qed


theorem cycle_status_counterexample:
  "fetch (mbox env_marketing) ''9'' = Fetched hello_msg \<and>
   ''9'' \<notin> processed_uids ensure_db \<and>
   check_mail env_marketing ensure_db =
     (Returned None,
      \<lparr>tasks = [], seq = 0, metadata = [(''last_uid'', ''9'')], processed_uids = {''9''}\<rparr>) \<and>
   fst (check_mail env_one ensure_db) = Returned (Some ''AI OFF | +0 / dropped 0'') \<and>
   map email_uid (tasks (snd (check_mail env_one ensure_db))) = [Some ''5''] \<and>
   tasks ensure_db = []"
  by code_simp

text \<open>
  Claim C7, as amended. Take a cycle that gets as far as the loop (option \<open>ssl\<close> readable,
  credentials set, connection made, stored cursor readable, search answered \<open>OK\<close> with
  distinct uids) and returns. Among the uids not processed before the cycle, call dropped
  those whose message is fetched and labelled with a drop label, and summarised those whose
  message is fetched and not dropped. If a callback is set and some message was summarised,
  the cycle reports \<open>AI m | +n / dropped k\<close>, where \<open>m\<close> is the AI mode of the last summarised
  message and \<open>k\<close> the number of dropped messages; otherwise it reports nothing. What \<open>n\<close> is is
  left open.
\<close>

theorem cycle_status:
  assumes "getboolean (imap_ssl (cfg env)) True = Inr use_ssl"
    and "cfg_get (imap_username (cfg env)) [] \<noteq> []"
    and "cfg_get (imap_password (cfg env)) [] \<noteq> []"
    and "connects (mbox env)"
    and "base_query (get_metadata ''last_uid'' ''0'' d) = Some base_q"
    and "search (mbox env)
           (search_query (strip (cfg_get (imap_cutoff_date (cfg env)) [])) base_q) =
         SearchResult ''OK'' toks"
    and "decode_all [u \<leftarrow> toks. u \<noteq> []] = Some uids"
    and "uids \<noteq> []"
    and "distinct uids"
    and "fst (check_mail env d) = Returned s"
  shows "\<exists>us ai_on. sorted_by_int uids = Some us \<and>
           getboolean (ai_enabled (cfg env)) True = Inr ai_on \<and>
           (if has_callback env \<and> [u \<leftarrow> us. u \<notin> processed_uids d \<and> is_summarised env u] \<noteq> []
            then \<exists>n. s = Some (''AI '' @
                   summary_mode env ai_on
                     (last [u \<leftarrow> us. u \<notin> processed_uids d \<and> is_summarised env u]) @
                   '' | +'' @ n @ '' / dropped '' @
                   py_str (int (length [u \<leftarrow> us. u \<notin> processed_uids d \<and> is_dropped env u])))
            else s = None)"
proof -
  have "check_mail env d = ingest env (get_metadata ''last_uid'' ''0'' d) uids d"
    using assms(1-8) by (simp add: check_mail_def Let_def)
  with assms(10) have "fst (ingest env (get_metadata ''last_uid'' ''0'' d) uids d) = Returned s"
    by simp
  then show ?thesis
    using ingest_status [OF assms(9)] by blast
qed

theorem cycle_status_witness:
  "fst (check_mail env_mixed ensure_db) = Returned (Some ''AI FALLBACK | +0 / dropped 1'') \<and>
   sorted_by_int [''7'', ''5''] = Some [''5'', ''7''] \<and>
   [u \<leftarrow> [''5'', ''7'']. u \<notin> processed_uids ensure_db \<and> is_summarised env_mixed u] = [''7''] \<and>
   [u \<leftarrow> [''5'', ''7'']. u \<notin> processed_uids ensure_db \<and> is_dropped env_mixed u] = [''5''] \<and>
   summary_mode env_mixed True ''7'' = ''FALLBACK'' \<and>
   (\<exists>us ai_on. sorted_by_int [''7'', ''5''] = Some us \<and>
      getboolean (ai_enabled (cfg env_mixed)) True = Inr ai_on \<and>
      (if has_callback env_mixed \<and>
          [u \<leftarrow> us. u \<notin> processed_uids ensure_db \<and> is_summarised env_mixed u] \<noteq> []
       then \<exists>n. Some ''AI FALLBACK | +0 / dropped 1'' = Some (''AI '' @
              summary_mode env_mixed ai_on
                (last [u \<leftarrow> us. u \<notin> processed_uids ensure_db \<and> is_summarised env_mixed u]) @
              '' | +'' @ n @ '' / dropped '' @
              py_str (int (length [u \<leftarrow> us. u \<notin> processed_uids ensure_db \<and> is_dropped env_mixed u])))
       else Some ''AI FALLBACK | +0 / dropped 1'' = None))"
proof -
  have pre: "getboolean (imap_ssl (cfg env_mixed)) True = Inr True"
    "cfg_get (imap_username (cfg env_mixed)) [] \<noteq> []"
    "cfg_get (imap_password (cfg env_mixed)) [] \<noteq> []"
    "connects (mbox env_mixed)"
    "base_query (get_metadata ''last_uid'' ''0'' ensure_db) = Some ''(UID 1:*)''"
    "search (mbox env_mixed)
       (search_query (strip (cfg_get (imap_cutoff_date (cfg env_mixed)) [])) ''(UID 1:*)'') =
     SearchResult ''OK'' [''7'', ''5'']"
    "decode_all [u \<leftarrow> [''7'', ''5'']. u \<noteq> []] = Some [''7'', ''5'']"
    "[''7'', ''5''] \<noteq> ([] :: string list)"
    "distinct [''7'', ''5'']"
    "fst (check_mail env_mixed ensure_db) = Returned (Some ''AI FALLBACK | +0 / dropped 1'')"
    by code_simp+
  have vals: "sorted_by_int [''7'', ''5''] = Some [''5'', ''7'']"
    "[u \<leftarrow> [''5'', ''7'']. u \<notin> processed_uids ensure_db \<and> is_summarised env_mixed u] = [''7'']"
    "[u \<leftarrow> [''5'', ''7'']. u \<notin> processed_uids ensure_db \<and> is_dropped env_mixed u] = [''5'']"
    "summary_mode env_mixed True ''7'' = ''FALLBACK''"
    by code_simp+
  from pre(10) vals cycle_status [OF pre] show ?thesis
    by (intro conjI)
qed

end
